theory Spec2Isabelle
  imports Complex_Main
begin

section \<open>Python values\<close>

text \<open>
  The exceptions the modelled code can raise. An \<open>assert\<close> that fails is
  \<open>AssertionError\<close>; reading a list out of range is \<open>IndexError\<close>; reading a missing
  dictionary key is \<open>KeyError\<close>; indexing a list with \<open>nan\<close> is \<open>TypeError\<close>;
  \<open>np.argmin\<close> of an empty sequence and a missing weight function are \<open>ValueError\<close>.
\<close>

datatype error = AssertionError | IndexError | KeyError | TypeError | ValueError

text \<open>
  Floating point numbers are modelled as real numbers extended by the two infinities
  \<open>np.inf\<close> and \<open>-np.inf\<close>, which the code uses as initial values. Rounding and
  \<open>nan\<close> as a number are outside the model.
\<close>

datatype xreal = MInf | Fin real | PInf

fun xless :: "xreal \<Rightarrow> xreal \<Rightarrow> bool" where
  "xless MInf MInf = False"
| "xless MInf _ = True"
| "xless (Fin a) (Fin b) = (a < b)"
| "xless (Fin a) PInf = True"
| "xless (Fin a) MInf = False"
| "xless PInf _ = False"

definition xle :: "xreal \<Rightarrow> xreal \<Rightarrow> bool" where
  "xle a b = (\<not> xless b a)"

text \<open>Adding a finite number to an extended one.\<close>

fun xadd :: "xreal \<Rightarrow> real \<Rightarrow> xreal" where
  "xadd MInf w = MInf"
| "xadd (Fin a) w = Fin (a + w)"
| "xadd PInf w = PInf"

text \<open>Python indexing of a list by an integer: negative indices count from the end.\<close>

definition py_index :: "'a list \<Rightarrow> int \<Rightarrow> error + 'a" where
  "py_index xs i =
     (if 0 \<le> i \<and> i < int (length xs) then Inr (xs ! nat i)
      else if i < 0 \<and> - int (length xs) \<le> i then Inr (xs ! nat (int (length xs) + i))
      else Inl IndexError)"

text \<open>Indexing by a loop counter, which is never negative.\<close>

definition py_get :: "'a list \<Rightarrow> nat \<Rightarrow> error + 'a" where
  "py_get xs i = (if i < length xs then Inr (xs ! i) else Inl IndexError)"

text \<open>
  A \<open>for\<close> loop over a list of values whose body may raise: the state is threaded
  through the iterations and the first exception ends the loop.
\<close>

fun for_each :: "('a \<Rightarrow> 's \<Rightarrow> 'e + 's) \<Rightarrow> 'a list \<Rightarrow> 's \<Rightarrow> 'e + 's" where
  "for_each body [] s = Inr s"
| "for_each body (x # xs) s =
     (case body x s of Inl e \<Rightarrow> Inl e | Inr s' \<Rightarrow> for_each body xs s')"

text \<open>
  \<open>np.argmin\<close>: the index of the first occurrence of the minimum; it raises on an empty
  sequence.
\<close>

fun argmin_list :: "xreal list \<Rightarrow> nat" where
  "argmin_list [] = 0"
| "argmin_list [x] = 0"
| "argmin_list (x # y # ys) =
     (let k = argmin_list (y # ys) in if xle x ((y # ys) ! k) then 0 else Suc k)"

definition argmin :: "xreal list \<Rightarrow> error + nat" where
  "argmin xs = (if xs = [] then Inl ValueError else Inr (argmin_list xs))"

section \<open>The candidate layers\<close>

text \<open>
  One dictionary of \<open>cand_data\<close>, with the keys the solver and the reranking read:
  the match scores, the order values \<open>wtx\<close>, the retention time of the spectrum, the
  ground-truth flags, and the blocked flags, a key that only the reranking adds.
\<close>

record Layer =
  iokrscores :: "real list"
  wtx :: "real list"
  rt_cand_list :: real
  is_true_identification :: "bool list"
  is_blocked :: "bool list option"

text \<open>The keyword arguments of the weight function.\<close>

record kwargs =
  D :: real
  use_sign :: bool
  epsilon_rt :: xreal
  use_log :: bool

type_synonym weight_fun =
  "Layer list \<Rightarrow> nat \<times> nat \<Rightarrow> nat \<times> nat \<Rightarrow> kwargs \<Rightarrow> error + (real \<times> real)"

section \<open>The weight function\<close>

text \<open>
  \<open>_weight_func_max\<close>: the weight of the edge from the head node \<open>u = (t, i)\<close> to the
  tail node \<open>v = (tp1, j)\<close>, and the difference of the order values.
\<close>

definition weight_func_max :: weight_fun where
  "weight_func_max cand_data u v kw =
     (case u of (t, i) \<Rightarrow> (case v of (tp1, j) \<Rightarrow>
       (case py_get cand_data tp1 of Inl e \<Rightarrow> Inl e | Inr l_tp1 \<Rightarrow>
       (case py_get (iokrscores l_tp1) j of Inl e \<Rightarrow> Inl e | Inr s_tp1_j \<Rightarrow>
       (case py_get cand_data t of Inl e \<Rightarrow> Inl e | Inr l_t \<Rightarrow>
       (case (if xle (Fin \<bar>rt_cand_list l_t - rt_cand_list l_tp1\<bar>) (epsilon_rt kw)
              then Inr 0
              else (case py_get (wtx l_t) i of Inl e \<Rightarrow> Inl e | Inr a \<Rightarrow>
                   (case py_get (wtx l_tp1) j of Inl e \<Rightarrow> Inl e | Inr b \<Rightarrow> Inr (a - b))))
        of Inl e \<Rightarrow> Inl e
         | Inr dW0 \<Rightarrow>
            (let dW_tp1_j = (if use_sign kw then sgn dW0 else dW0);
                 penalty0 = max 0 dW_tp1_j;
                 penalty = (if use_log kw then ln (penalty0 + 1) else penalty0)
             in Inr (- s_tp1_j + D kw * penalty, dW_tp1_j))))))))"

section \<open>The shortest path\<close>

text \<open>
  \<open>is_sorted (l, ascending = False)\<close>.
  Modelled from the spec: \<open>helper_cls.is_sorted\<close> is imported by the module and is not
  among its sources; the spec has the validation "assert per-layer scores descending".
  Equal neighbours pass: the module itself gives candidates with equal scores the same
  rank when it builds a layer.
\<close>

fun is_sorted_desc :: "real list \<Rightarrow> bool" where
  "is_sorted_desc [] = True"
| "is_sorted_desc [x] = True"
| "is_sorted_desc (x # y # ys) = (x \<ge> y \<and> is_sorted_desc (y # ys))"

text \<open>\<open>int (np.minimum (n, cut_off_n_cand))\<close>; \<open>None\<close> is the default \<open>np.inf\<close>.\<close>

definition n_cand :: "nat \<Rightarrow> nat option \<Rightarrow> nat" where
  "n_cand n cut_off_n_cand = (case cut_off_n_cand of None \<Rightarrow> n | Some c \<Rightarrow> min n c)"

text \<open>
  An entry of \<open>parents\<close>: \<open>-1\<close> in the first layer, \<open>np.nan\<close> where no path has
  reached the node, and the index of the predecessor otherwise.
\<close>

datatype parent = NoParent | Unset | Parent nat

text \<open>The three tables of the dynamic program, one row per layer.\<close>

record tables =
  S_path :: "xreal list list"
  dW_path :: "xreal list list"
  parents :: "parent list list"

text \<open>
  The rows \<open>S_path[tp1]\<close>, \<open>dW_path[tp1]\<close> and \<open>parents[tp1]\<close> of the layer that is
  being filled. The code appends them to the tables first and updates them in place; the
  model fills them and appends them then, which is the same since the loop body reads
  the rows of layer \<open>t\<close> only.
\<close>

type_synonym row = "xreal list \<times> xreal list \<times> parent list"

text \<open>
  The update of node \<open>(tp1, j)\<close> from node \<open>(t, i)\<close>: the new path is kept when it is
  strictly shorter.
\<close>

definition relax :: "xreal \<Rightarrow> xreal \<Rightarrow> nat \<Rightarrow> nat \<Rightarrow> real \<times> real \<Rightarrow> row \<Rightarrow> row" where
  "relax s_t_i dW_t_i i j upd r =
     (case r of (S, dW, P) \<Rightarrow> (case upd of (s_update, dw_tp1_j) \<Rightarrow>
        (let s_tp1_j = xadd s_t_i s_update
         in if xless s_tp1_j (S ! j)
            then (S[j := s_tp1_j], dW[j := xadd dW_t_i dw_tp1_j], P[j := Parent i])
            else (S, dW, P))))"

definition new_row :: "nat \<Rightarrow> row" where
  "new_row n = (replicate n PInf, replicate n MInf, replicate n Unset)"

definition append_row :: "tables \<Rightarrow> row \<Rightarrow> tables" where
  "append_row T r =
     (case r of (S, dW, P) \<Rightarrow>
        \<lparr>S_path = S_path T @ [S], dW_path = dW_path T @ [dW], parents = parents T @ [P]\<rparr>)"

definition first_tables :: "Layer list \<Rightarrow> tables" where
  "first_tables cand_data =
     (let n_cand_first = length (iokrscores (cand_data ! 0))
      in \<lparr>S_path = [map (\<lambda>score. Fin (- score)) (iokrscores (cand_data ! 0))],
          dW_path = [replicate n_cand_first (Fin 0)],
          parents = [replicate n_cand_first NoParent]\<rparr>)"

text \<open>
  The walk back along the parents, from the node \<open>nodes[-1]\<close> of layer \<open>t\<close>. The loop
  ends at the first \<open>-1\<close>; \<open>t\<close> is a Python integer, so a negative \<open>t\<close> would index
  from the end, and an index \<open>nan\<close> is a \<open>TypeError\<close>.
\<close>

function backtrack :: "parent list list \<Rightarrow> int \<Rightarrow> nat list \<Rightarrow> error + nat list" where
  "backtrack P t nodes =
     (case py_index P t of Inl e \<Rightarrow> Inl e | Inr row \<Rightarrow>
     (case py_get row (last nodes) of Inl e \<Rightarrow> Inl e | Inr par \<Rightarrow>
     (case par of
        NoParent \<Rightarrow> Inr nodes
      | Unset \<Rightarrow> (case py_index P (t - 1) of Inl e \<Rightarrow> Inl e | Inr _ \<Rightarrow> Inl TypeError)
      | Parent p \<Rightarrow> backtrack P (t - 1) (nodes @ [p]))))"
  by pat_completeness auto
termination
  by (relation "measure (\<lambda>(P, t, nodes). nat (t + int (length P) + 1))")
     (auto simp: py_index_def Let_def split: if_splits)

declare backtrack.simps [simp del]

text \<open>
  The end of both solvers: the node of the last layer with the smallest accumulated
  length, that length, and the path to it.
\<close>

definition extract_path :: "tables \<Rightarrow> nat \<Rightarrow> error + (nat list \<times> xreal)" where
  "extract_path T n_layer =
     (case argmin (last (S_path T)) of Inl e \<Rightarrow> Inl e | Inr k \<Rightarrow>
     (let len_shortest_path = last (S_path T) ! k
      in (case backtrack (parents T) (int n_layer - 1) [k] of Inl e \<Rightarrow> Inl e
          | Inr nodes \<Rightarrow> Inr (rev nodes, len_shortest_path))))"

subsection \<open>\<open>shortest_path\<close>\<close>

text \<open>The input checks: scores descending, retention times not decreasing.\<close>

definition sp_check_layer :: "Layer list \<Rightarrow> nat \<Rightarrow> xreal \<Rightarrow> error + xreal" where
  "sp_check_layer cand_data t rt =
     (if \<not> is_sorted_desc (iokrscores (cand_data ! t)) then Inl AssertionError
      else if \<not> xle rt (Fin (rt_cand_list (cand_data ! t))) then Inl AssertionError
      else Inr (Fin (rt_cand_list (cand_data ! t))))"

definition sp_tail_step ::
  "Layer list \<Rightarrow> weight_fun \<Rightarrow> kwargs \<Rightarrow> nat \<Rightarrow> nat \<Rightarrow> xreal \<Rightarrow> xreal \<Rightarrow> nat \<Rightarrow> row \<Rightarrow> error + row" where
  "sp_tail_step cand_data weight_fun kwds t i s_t_i dW_t_i j r =
     (case weight_fun cand_data (t, i) (t + 1, j) kwds of Inl e \<Rightarrow> Inl e
      | Inr upd \<Rightarrow> Inr (relax s_t_i dW_t_i i j upd r))"

definition sp_head_step ::
  "Layer list \<Rightarrow> weight_fun \<Rightarrow> kwargs \<Rightarrow> nat \<Rightarrow> nat \<Rightarrow> xreal list \<Rightarrow> xreal list \<Rightarrow> nat \<Rightarrow> row \<Rightarrow> error + row" where
  "sp_head_step cand_data weight_fun kwds t n_cand_tp1 S_t dW_t i r =
     for_each (sp_tail_step cand_data weight_fun kwds t i (S_t ! i) (dW_t ! i)) [0..<n_cand_tp1] r"

definition sp_layer_step ::
  "Layer list \<Rightarrow> weight_fun \<Rightarrow> nat option \<Rightarrow> kwargs \<Rightarrow> nat \<Rightarrow> tables \<Rightarrow> error + tables" where
  "sp_layer_step cand_data weight_fun cut_off_n_cand kwds t T =
     (let tp1 = t + 1;
          n_cand_t = n_cand (length (iokrscores (cand_data ! t))) cut_off_n_cand;
          n_cand_tp1 = n_cand (length (iokrscores (cand_data ! tp1))) cut_off_n_cand
      in (case for_each (sp_head_step cand_data weight_fun kwds t n_cand_tp1
                           (S_path T ! t) (dW_path T ! t)) [0..<n_cand_t] (new_row n_cand_tp1)
          of Inl e \<Rightarrow> Inl e | Inr r \<Rightarrow> Inr (append_row T r)))"

definition shortest_path ::
  "Layer list \<Rightarrow> weight_fun \<Rightarrow> nat option \<Rightarrow> bool \<Rightarrow> kwargs \<Rightarrow> error + (nat list \<times> xreal)" where
  "shortest_path cand_data weight_fun cut_off_n_cand check_input kwds =
     (let n_layer = length cand_data
      in (case (if check_input then for_each (sp_check_layer cand_data) [0..<n_layer] MInf
                else Inr MInf)
          of Inl e \<Rightarrow> Inl e
           | Inr _ \<Rightarrow>
              if cand_data = [] then Inl IndexError
              else (case for_each (sp_layer_step cand_data weight_fun cut_off_n_cand kwds)
                           [0..<n_layer - 1] (first_tables cand_data)
                    of Inl e \<Rightarrow> Inl e | Inr T \<Rightarrow> extract_path T n_layer)))"

subsection \<open>\<open>shortest_path_exclude_candidates\<close>\<close>

text \<open>\<open>cand_data[t]["is_blocked"][i]\<close>: the key may be missing, the index out of range.\<close>

definition blocked :: "Layer \<Rightarrow> nat \<Rightarrow> error + bool" where
  "blocked l i = (case is_blocked l of None \<Rightarrow> Inl KeyError | Some b \<Rightarrow> py_get b i)"

text \<open>
  The input checks: scores descending, retention times not decreasing and, when blocked
  candidates are excluded, a vector of blocked flags as long as the scores.
\<close>

definition sec_check_layer :: "Layer list \<Rightarrow> bool \<Rightarrow> nat \<Rightarrow> xreal \<Rightarrow> error + xreal" where
  "sec_check_layer cand_data exclude_blocked_candidates t rt =
     (if \<not> is_sorted_desc (iokrscores (cand_data ! t)) then Inl AssertionError
      else if \<not> xle rt (Fin (rt_cand_list (cand_data ! t))) then Inl AssertionError
      else if exclude_blocked_candidates then
        (case is_blocked (cand_data ! t) of
           None \<Rightarrow> Inl AssertionError
         | Some b \<Rightarrow>
            if length b \<noteq> length (iokrscores (cand_data ! t)) then Inl AssertionError
            else Inr (Fin (rt_cand_list (cand_data ! t))))
      else Inr (Fin (rt_cand_list (cand_data ! t))))"

definition sec_tail_step ::
  "Layer list \<Rightarrow> weight_fun \<Rightarrow> bool \<Rightarrow> kwargs \<Rightarrow> nat \<Rightarrow> nat \<Rightarrow> xreal \<Rightarrow> xreal \<Rightarrow> nat \<Rightarrow> row \<Rightarrow> error + row" where
  "sec_tail_step cand_data weight_fun exclude_blocked_candidates kwds t i s_t_i dW_t_i j r =
     (case (if exclude_blocked_candidates then blocked (cand_data ! (t + 1)) j else Inr False) of
        Inl e \<Rightarrow> Inl e
      | Inr skip \<Rightarrow>
         if skip then Inr r
         else (case weight_fun cand_data (t, i) (t + 1, j) kwds of Inl e \<Rightarrow> Inl e
               | Inr upd \<Rightarrow> Inr (relax s_t_i dW_t_i i j upd r)))"

definition sec_head_step ::
  "Layer list \<Rightarrow> weight_fun \<Rightarrow> bool \<Rightarrow> kwargs \<Rightarrow> nat \<Rightarrow> nat \<Rightarrow> xreal list \<Rightarrow> xreal list \<Rightarrow> nat \<Rightarrow> row \<Rightarrow> error + row" where
  "sec_head_step cand_data weight_fun exclude_blocked_candidates kwds t n_cand_tp1 S_t dW_t i r =
     (case (if exclude_blocked_candidates then blocked (cand_data ! t) i else Inr False) of
        Inl e \<Rightarrow> Inl e
      | Inr skip \<Rightarrow>
         if skip then Inr r
         else for_each (sec_tail_step cand_data weight_fun exclude_blocked_candidates kwds t i
                          (S_t ! i) (dW_t ! i)) [0..<n_cand_tp1] r)"

definition sec_layer_step ::
  "Layer list \<Rightarrow> weight_fun \<Rightarrow> nat option \<Rightarrow> bool \<Rightarrow> kwargs \<Rightarrow> nat \<Rightarrow> tables \<Rightarrow> error + tables" where
  "sec_layer_step cand_data weight_fun cut_off_n_cand exclude_blocked_candidates kwds t T =
     (let tp1 = t + 1;
          n_cand_t = n_cand (length (iokrscores (cand_data ! t))) cut_off_n_cand;
          n_cand_tp1 = n_cand (length (iokrscores (cand_data ! tp1))) cut_off_n_cand
      in (case for_each (sec_head_step cand_data weight_fun exclude_blocked_candidates kwds t
                           n_cand_tp1 (S_path T ! t) (dW_path T ! t)) [0..<n_cand_t]
                  (new_row n_cand_tp1)
          of Inl e \<Rightarrow> Inl e | Inr r \<Rightarrow> Inr (append_row T r)))"

text \<open>The forward pass: the tables after the last layer.\<close>

definition sec_forward ::
  "Layer list \<Rightarrow> weight_fun \<Rightarrow> nat option \<Rightarrow> bool \<Rightarrow> kwargs \<Rightarrow> error + tables" where
  "sec_forward cand_data weight_fun cut_off_n_cand exclude_blocked_candidates kwds =
     for_each (sec_layer_step cand_data weight_fun cut_off_n_cand exclude_blocked_candidates kwds)
       [0..<length cand_data - 1] (first_tables cand_data)"

definition shortest_path_exclude_candidates ::
  "Layer list \<Rightarrow> weight_fun \<Rightarrow> nat option \<Rightarrow> bool \<Rightarrow> bool \<Rightarrow> kwargs \<Rightarrow> error + (nat list \<times> xreal)" where
  "shortest_path_exclude_candidates cand_data weight_fun cut_off_n_cand check_input
       exclude_blocked_candidates kwds =
     (let n_layer = length cand_data
      in (case (if check_input
                then for_each (sec_check_layer cand_data exclude_blocked_candidates) [0..<n_layer] MInf
                else Inr MInf)
          of Inl e \<Rightarrow> Inl e
           | Inr _ \<Rightarrow>
              if cand_data = [] then Inl IndexError
              else (case sec_forward cand_data weight_fun cut_off_n_cand
                           exclude_blocked_candidates kwds
                    of Inl e \<Rightarrow> Inl e | Inr T \<Rightarrow> extract_path T n_layer)))"

section \<open>The reranking\<close>

text \<open>
  The reranking writes to the dictionaries of its copy of \<open>cand_data\<close>, so the
  dictionaries live in a store: an object is a position of the store, \<open>cand_data\<close> is a
  list of such positions, and an exception leaves the store as it is at that moment.
\<close>

type_synonym heap = "Layer list"

fun index_of :: "'a list \<Rightarrow> 'a \<Rightarrow> nat" where
  "index_of [] a = 0"
| "index_of (x # xs) a = (if x = a then 0 else Suc (index_of xs a))"

text \<open>
  \<open>copy.deepcopy (cand_data)\<close>: every dictionary of the list is copied once to a new
  object, so that two entries of the list that are the same object stay the same object in
  the copy. The lists of a dictionary are part of its value: the deep copy copies them
  with it.
\<close>

definition deepcopy :: "heap \<Rightarrow> nat list \<Rightarrow> heap \<times> nat list" where
  "deepcopy h cand_data =
     (let objs = remdups cand_data
      in (h @ map (\<lambda>a. h ! a) objs, map (\<lambda>a. length h + index_of objs a) cand_data))"

text \<open>\<open>cand_data_c[t]["is_blocked"] = np.zeros (n_cand_t)\<close>, for every \<open>t\<close>.\<close>

definition init_blocked :: "nat list \<Rightarrow> nat \<Rightarrow> heap \<Rightarrow> (error \<times> heap) + heap" where
  "init_blocked cand_data_c t h =
     (let a = cand_data_c ! t; n_cand_t = length (iokrscores (h ! a))
      in Inr (h[a := (h ! a)\<lparr>is_blocked := Some (replicate n_cand_t False)\<rparr>]))"

record rerank_state =
  num_correct :: "nat list"
  paths :: "nat list list"
  lengths :: "xreal list"
  all_cand_blocked :: "bool list"

text \<open>\<open>_t_map\<close>: the index in \<open>cand_data_c\<close> of the \<open>t\<close>-th layer that is not exhausted.\<close>

definition t_map :: "nat \<Rightarrow> bool list \<Rightarrow> error + nat" where
  "t_map t acb = py_get (filter (\<lambda>u. \<not> acb ! u) [0..<length acb]) t"

text \<open>
  The body of the loop over the path: count the node when it is the true candidate, and
  block it.
\<close>

definition block_step ::
  "nat list \<Rightarrow> bool list \<Rightarrow> nat \<Rightarrow> nat \<times> nat \<Rightarrow> heap \<times> nat list \<Rightarrow> (error \<times> heap) + (heap \<times> nat list)" where
  "block_step cand_data_c acb k tc s =
     (case tc of (t, cand) \<Rightarrow> (case s of (h, nc) \<Rightarrow>
       (case t_map t acb of Inl e \<Rightarrow> Inl (e, h) | Inr u \<Rightarrow>
       (case py_get cand_data_c u of Inl e \<Rightarrow> Inl (e, h) | Inr a \<Rightarrow>
       (case py_get (is_true_identification (h ! a)) cand of Inl e \<Rightarrow> Inl (e, h) | Inr c \<Rightarrow>
       (case py_get nc k of Inl e \<Rightarrow> Inl (e, h) | Inr n \<Rightarrow>
       (let nc' = nc[k := n + (if c then 1 else 0)]
        in (case is_blocked (h ! a) of None \<Rightarrow> Inl (KeyError, h) | Some b \<Rightarrow>
             if cand < length b
             then Inr (h[a := (h ! a)\<lparr>is_blocked := Some (b[cand := True])\<rparr>], nc')
             else Inl (IndexError, h)))))))))"

text \<open>\<open>all_cand_blocked[t] = all (cand_data_c[t]["is_blocked"])\<close>, for every \<open>t\<close>.\<close>

definition exhausted_step :: "nat list \<Rightarrow> heap \<Rightarrow> nat \<Rightarrow> bool list \<Rightarrow> (error \<times> heap) + bool list" where
  "exhausted_step cand_data_c h t acb =
     (case is_blocked (h ! (cand_data_c ! t)) of None \<Rightarrow> Inl (KeyError, h)
      | Some b \<Rightarrow> Inr (acb[t := list_all (\<lambda>x. x) b]))"

text \<open>One iteration of the loop over \<open>k\<close>, after the test for the \<open>break\<close>.\<close>

definition rerank_iteration ::
  "nat list \<Rightarrow> nat option \<Rightarrow> weight_fun \<Rightarrow> kwargs \<Rightarrow> nat \<Rightarrow> heap \<times> rerank_state \<Rightarrow>
   (error \<times> heap) + (heap \<times> rerank_state)" where
  "rerank_iteration cand_data_c cut_off_n_cand weight_function kwargs k s =
     (case s of (h, st) \<Rightarrow>
       (let acb = all_cand_blocked st;
            sub = map (\<lambda>t. h ! (cand_data_c ! t))
                    (filter (\<lambda>t. \<not> acb ! t) [0..<length cand_data_c])
        in (case shortest_path_exclude_candidates sub weight_function cut_off_n_cand True True kwargs
            of Inl e \<Rightarrow> Inl (e, h)
             | Inr (path, len) \<Rightarrow>
                if length path \<noteq> length (filter (\<lambda>b. \<not> b) acb) then Inl (AssertionError, h)
                else
                  (case for_each (block_step cand_data_c acb k) (zip [0..<length path] path)
                          (h, num_correct st @ [0])
                   of Inl eh \<Rightarrow> Inl eh
                    | Inr (h', nc') \<Rightarrow>
                       (case for_each (exhausted_step cand_data_c h') [0..<length cand_data_c] acb
                        of Inl eh \<Rightarrow> Inl eh
                         | Inr acb' \<Rightarrow>
                            Inr (h', \<lparr>num_correct = nc', paths = paths st @ [path],
                                      lengths = lengths st @ [len], all_cand_blocked = acb'\<rparr>))))))"

text \<open>The loop over \<open>k\<close>, which ends early when every layer is exhausted.\<close>

fun rerank_loop ::
  "nat list \<Rightarrow> nat option \<Rightarrow> weight_fun \<Rightarrow> kwargs \<Rightarrow> nat list \<Rightarrow> heap \<times> rerank_state \<Rightarrow>
   (error \<times> heap) + (heap \<times> rerank_state)" where
  "rerank_loop cand_data_c cut_off_n_cand weight_function kwargs [] s = Inr s"
| "rerank_loop cand_data_c cut_off_n_cand weight_function kwargs (k # ks) s =
     (if list_all (\<lambda>x. x) (all_cand_blocked (snd s)) then Inr s
      else (case rerank_iteration cand_data_c cut_off_n_cand weight_function kwargs k s of
              Inl eh \<Rightarrow> Inl eh
            | Inr s' \<Rightarrow> rerank_loop cand_data_c cut_off_n_cand weight_function kwargs ks s'))"

text \<open>\<open>np.cumsum\<close>.\<close>

fun cumsum_from :: "nat \<Rightarrow> nat list \<Rightarrow> nat list" where
  "cumsum_from acc [] = []"
| "cumsum_from acc (x # xs) = (acc + x) # cumsum_from (acc + x) xs"

definition topk_accs :: "nat list \<Rightarrow> nat \<Rightarrow> real list" where
  "topk_accs nc n_layer = map (\<lambda>c. real c / real n_layer * 100) (cumsum_from 0 nc)"

text \<open>
  \<open>perform_reranking_of_candidates\<close>, called with the store \<open>h\<close> and the list
  \<open>cand_data\<close> of the caller; it gives the store at its end together with the exception
  or the triple of the accuracies, the paths and their lengths.
\<close>

definition perform_reranking_of_candidates ::
  "heap \<Rightarrow> nat list \<Rightarrow> nat \<Rightarrow> nat option \<Rightarrow> weight_fun option \<Rightarrow> kwargs \<Rightarrow>
   (error \<times> heap) + ((real list \<times> nat list list \<times> xreal list) \<times> heap)" where
  "perform_reranking_of_candidates h cand_data topk cut_off_n_cand weight_function kwargs =
     (case deepcopy h cand_data of (h1, cand_data_c) \<Rightarrow>
       (case weight_function of None \<Rightarrow> Inl (ValueError, h1) | Some w_fun \<Rightarrow>
         (case for_each (init_blocked cand_data_c) [0..<length cand_data_c] h1 of
            Inl eh \<Rightarrow> Inl eh
          | Inr h2 \<Rightarrow>
             (case rerank_loop cand_data_c cut_off_n_cand w_fun kwargs [0..<topk]
                     (h2, \<lparr>num_correct = [], paths = [], lengths = [],
                           all_cand_blocked = replicate (length cand_data_c) False\<rparr>)
              of Inl eh \<Rightarrow> Inl eh
               | Inr (h3, st) \<Rightarrow>
                  Inr ((topk_accs (num_correct st) (length cand_data_c), paths st, lengths st),
                       h3)))))"

text \<open>The store at the end of a call, and what the caller gets.\<close>

definition final_heap :: "(error \<times> heap) + ('a \<times> heap) \<Rightarrow> heap" where
  "final_heap r = (case r of Inl (e, h) \<Rightarrow> h | Inr (x, h) \<Rightarrow> h)"

definition outcome :: "(error \<times> heap) + ('a \<times> heap) \<Rightarrow> error + 'a" where
  "outcome r = (case r of Inl (e, h) \<Rightarrow> Inl e | Inr (x, h) \<Rightarrow> Inr x)"

section \<open>The scenario of the specification\<close>

definition scenario_layer0 :: Layer where
  "scenario_layer0 =
     \<lparr>iokrscores = [0.9, 0.5], wtx = [2.0, 1.0], rt_cand_list = 1.0,
      is_true_identification = [True, False], is_blocked = None\<rparr>"

definition scenario_layer1 :: Layer where
  "scenario_layer1 =
     \<lparr>iokrscores = [0.8, 0.6], wtx = [1.5, 0.9], rt_cand_list = 5.0,
      is_true_identification = [True, False], is_blocked = None\<rparr>"

definition scenario_kwargs :: kwargs where
  "scenario_kwargs = \<lparr>D = 1, use_sign = False, epsilon_rt = Fin 0.1, use_log = False\<rparr>"

text \<open>A single layer whose candidate with the highest score is blocked.\<close>

definition blocked_top_layer :: Layer where
  "blocked_top_layer =
     \<lparr>iokrscores = [0.9, 0.5], wtx = [2.0, 1.0], rt_cand_list = 1.0,
      is_true_identification = [True, False], is_blocked = Some [True, False]\<rparr>"

text \<open>
  The layers of the scenario with other ground-truth flags: no true candidate in the
  first, two in the second.
\<close>

definition no_true_layer0 :: Layer where
  "no_true_layer0 = scenario_layer0\<lparr>is_true_identification := [False, False]\<rparr>"

definition two_true_layer1 :: Layer where
  "two_true_layer1 = scenario_layer1\<lparr>is_true_identification := [True, True]\<rparr>"

text \<open>A layer whose scores are not descending.\<close>

definition unsorted_layer :: Layer where
  "unsorted_layer = scenario_layer0\<lparr>iokrscores := [0.5, 0.9]\<rparr>"

text \<open>What the input checks ask of layer \<open>t\<close>, the retention times apart.\<close>

definition layer_ok :: "Layer list \<Rightarrow> bool \<Rightarrow> nat \<Rightarrow> bool" where
  "layer_ok cand_data excl t =
     (is_sorted_desc (iokrscores (cand_data ! t))
      \<and> (excl \<longrightarrow> (\<exists>b. is_blocked (cand_data ! t) = Some b
                         \<and> length b = length (iokrscores (cand_data ! t)))))"

text \<open>A layer with other ground-truth flags.\<close>

definition set_true :: "(Layer \<Rightarrow> bool list) \<Rightarrow> Layer \<Rightarrow> Layer" where
  "set_true f = (\<lambda>l. l\<lparr>is_true_identification := f l\<rparr>)"

text \<open>
  The tables of \<open>shortest_path\<close> when the order information is switched off: the
  sum of the highest scores of the layers before layer \<open>m\<close>, the length of the row of
  a layer, and the tables after the layer pairs below \<open>m\<close>. They state loop invariants.
\<close>

definition top_sum :: "Layer list \<Rightarrow> nat \<Rightarrow> real" where
  "top_sum cand_data m = sum_list (map (\<lambda>l. iokrscores l ! 0) (take m cand_data))"

definition row_width :: "Layer list \<Rightarrow> nat option \<Rightarrow> nat \<Rightarrow> nat" where
  "row_width cand_data cut_off t =
     (if t = 0 then length (iokrscores (cand_data ! 0))
      else n_cand (length (iokrscores (cand_data ! t))) cut_off)"

definition greedy_tables :: "Layer list \<Rightarrow> nat option \<Rightarrow> nat \<Rightarrow> tables \<Rightarrow> bool" where
  "greedy_tables cand_data cut_off m T \<longleftrightarrow>
     length (S_path T) = Suc m \<and> length (parents T) = Suc m
     \<and> S_path T ! m = map (\<lambda>i. Fin (- top_sum cand_data m - iokrscores (cand_data ! m) ! i))
                         [0..<row_width cand_data cut_off m]
     \<and> parents T ! 0 = replicate (length (iokrscores (cand_data ! 0))) NoParent
     \<and> (\<forall>t. 1 \<le> t \<and> t \<le> m
            \<longrightarrow> parents T ! t = replicate (row_width cand_data cut_off t) (Parent 0))"

text \<open>Keyword arguments with \<open>epsilon_rt = np.inf\<close>.\<close>

definition infinite_kwargs :: kwargs where
  "infinite_kwargs = \<lparr>D = 1, use_sign = False, epsilon_rt = PInf, use_log = True\<rparr>"

text \<open>
  Notions for the loop invariants of the relaxation. A node is unblocked when blocked
  candidates are not excluded or its flag reads \<open>False\<close>; \<open>edge_cost\<close> says that \<open>c\<close> is
  the length of the path that reaches node \<open>(t + 1, j)\<close> through node \<open>(t, i)\<close>, given the
  row \<open>S_t\<close> of layer \<open>t\<close>.
\<close>

definition unblocked :: "Layer list \<Rightarrow> bool \<Rightarrow> nat \<Rightarrow> nat \<Rightarrow> bool" where
  "unblocked cand_data excl t i \<longleftrightarrow> (excl \<longrightarrow> blocked (cand_data ! t) i = Inr False)"

definition edge_cost ::
  "Layer list \<Rightarrow> weight_fun \<Rightarrow> kwargs \<Rightarrow> xreal list \<Rightarrow> nat \<Rightarrow> nat \<Rightarrow> nat \<Rightarrow> xreal \<Rightarrow> bool" where
  "edge_cost cand_data weight_fun kw S_t t i j c \<longleftrightarrow>
     (\<exists>w d. weight_fun cand_data (t, i) (t + 1, j) kw = Inr (w, d) \<and> c = xadd (S_t ! i) w)"

text \<open>
  Column \<open>j\<close> of the row that is being filled, after the heads below \<open>k\<close>: its length is
  at most that of every path through an unblocked head below \<open>k\<close>, and a parent is an
  unblocked head below \<open>k\<close> whose path has that length, every unblocked head before it
  giving a strictly longer path.
\<close>

definition col_inv ::
  "Layer list \<Rightarrow> weight_fun \<Rightarrow> bool \<Rightarrow> kwargs \<Rightarrow> xreal list \<Rightarrow> nat \<Rightarrow> nat \<Rightarrow>
   xreal list \<Rightarrow> parent list \<Rightarrow> nat \<Rightarrow> bool" where
  "col_inv cand_data weight_fun excl kw S_t t k S P j \<longleftrightarrow>
     (unblocked cand_data excl (t + 1) j \<longrightarrow>
        (\<forall>i' < k. unblocked cand_data excl t i' \<longrightarrow>
           (\<exists>c. edge_cost cand_data weight_fun kw S_t t i' j c \<and> xle (S ! j) c)))
     \<and> (\<forall>i. P ! j = Parent i \<longrightarrow>
           unblocked cand_data excl (t + 1) j \<and> i < k \<and> unblocked cand_data excl t i
           \<and> edge_cost cand_data weight_fun kw S_t t i j (S ! j)
           \<and> (\<forall>i' < i. unblocked cand_data excl t i' \<longrightarrow>
                 (\<exists>c. edge_cost cand_data weight_fun kw S_t t i' j c \<and> xless (S ! j) c)))
     \<and> P ! j \<noteq> NoParent"

text \<open>The tables after the layer pairs below \<open>m\<close>.\<close>

definition tables_inv ::
  "Layer list \<Rightarrow> weight_fun \<Rightarrow> nat option \<Rightarrow> bool \<Rightarrow> kwargs \<Rightarrow> nat \<Rightarrow> tables \<Rightarrow> bool" where
  "tables_inv cand_data weight_fun cut_off excl kw m T \<longleftrightarrow>
     length (S_path T) = Suc m \<and> length (parents T) = Suc m \<and> length (dW_path T) = Suc m
     \<and> S_path T ! 0 = map (\<lambda>score. Fin (- score)) (iokrscores (cand_data ! 0))
     \<and> parents T ! 0 = replicate (length (iokrscores (cand_data ! 0))) NoParent
     \<and> (\<forall>t < m.
           length (S_path T ! Suc t) = n_cand (length (iokrscores (cand_data ! Suc t))) cut_off
           \<and> length (parents T ! Suc t) = n_cand (length (iokrscores (cand_data ! Suc t))) cut_off
           \<and> (\<forall>j < n_cand (length (iokrscores (cand_data ! Suc t))) cut_off.
                 col_inv cand_data weight_fun excl kw (S_path T ! t) t
                   (n_cand (length (iokrscores (cand_data ! t))) cut_off)
                   (S_path T ! Suc t) (parents T ! Suc t) j))"

text \<open>Two layers in which all paths have the same length.\<close>

definition tie_layer0 :: Layer where
  "tie_layer0 =
     \<lparr>iokrscores = [0.5, 0.5], wtx = [1.0, 1.0], rt_cand_list = 1.0,
      is_true_identification = [True, False], is_blocked = Some [False, False]\<rparr>"

definition tie_layer1 :: Layer where
  "tie_layer1 =
     \<lparr>iokrscores = [0.5, 0.5], wtx = [2.0, 2.0], rt_cand_list = 5.0,
      is_true_identification = [True, False], is_blocked = Some [False, False]\<rparr>"

text \<open>
  What \<open>perform_reranking_of_candidates\<close> does after the copy, on a store that holds
  the copied dictionaries only.
\<close>

definition local_call ::
  "heap \<Rightarrow> nat list \<Rightarrow> nat \<Rightarrow> nat option \<Rightarrow> weight_fun option \<Rightarrow> kwargs \<Rightarrow>
   (error \<times> heap) + ((real list \<times> nat list list \<times> xreal list) \<times> heap)" where
  "local_call loc c topk cut_off weight_function kw =
     (case weight_function of None \<Rightarrow> Inl (ValueError, loc) | Some w_fun \<Rightarrow>
       (case for_each (init_blocked c) [0..<length c] loc of
          Inl eh \<Rightarrow> Inl eh
        | Inr h2 \<Rightarrow>
           (case rerank_loop c cut_off w_fun kw [0..<topk]
                   (h2, \<lparr>num_correct = [], paths = [], lengths = [],
                         all_cand_blocked = replicate (length c) False\<rparr>)
            of Inl eh \<Rightarrow> Inl eh
             | Inr (h3, st) \<Rightarrow>
                Inr ((topk_accs (num_correct st) (length c), paths st, lengths st), h3))))"

text \<open>
  The counts of the reranking in the words of the specification, replayed on a list of
  paths: the positions of a path are mapped to the layers that are not exhausted, in
  order; a position counts when its candidate is the true one of its layer; the candidate
  is blocked in that layer; and a layer is exhausted when all its candidates are blocked.
  At the start no candidate is blocked and no layer is exhausted.
\<close>

definition spec_mapping :: "bool list \<Rightarrow> nat list" where
  "spec_mapping exhausted = filter (\<lambda>u. \<not> exhausted ! u) [0..<length exhausted]"

definition spec_is_correct :: "Layer list \<Rightarrow> bool list \<Rightarrow> nat \<times> nat \<Rightarrow> bool" where
  "spec_is_correct layers exhausted pc =
     (case pc of (p, c) \<Rightarrow> is_true_identification (layers ! (spec_mapping exhausted ! p)) ! c)"

definition spec_correct_count :: "Layer list \<Rightarrow> bool list \<Rightarrow> nat list \<Rightarrow> nat" where
  "spec_correct_count layers exhausted path =
     length (filter (spec_is_correct layers exhausted) (zip [0..<length path] path))"

definition spec_block_node :: "bool list \<Rightarrow> nat \<times> nat \<Rightarrow> bool list list \<Rightarrow> bool list list" where
  "spec_block_node exhausted pc bl =
     (case pc of (p, c) \<Rightarrow>
        bl[spec_mapping exhausted ! p := (bl ! (spec_mapping exhausted ! p))[c := True]])"

definition spec_block :: "bool list list \<Rightarrow> bool list \<Rightarrow> nat list \<Rightarrow> bool list list" where
  "spec_block bl exhausted path =
     fold (spec_block_node exhausted) (zip [0..<length path] path) bl"

fun spec_replay :: "Layer list \<Rightarrow> bool list list \<Rightarrow> bool list \<Rightarrow> nat list list \<Rightarrow> nat list" where
  "spec_replay layers bl exhausted [] = []"
| "spec_replay layers bl exhausted (path # ps) =
     spec_correct_count layers exhausted path
     # spec_replay layers (spec_block bl exhausted path)
         (map (list_all (\<lambda>x. x)) (spec_block bl exhausted path)) ps"

definition spec_correct_counts :: "Layer list \<Rightarrow> nat list list \<Rightarrow> nat list" where
  "spec_correct_counts layers ps =
     spec_replay layers (map (\<lambda>l. replicate (length (iokrscores l)) False) layers)
       (replicate (length layers) False) ps"

text \<open>
  The store of the copied layers when no two layers are the same object: object \<open>u\<close> is
  layer \<open>u\<close> with the blocked flags \<open>bl ! u\<close>.
\<close>

definition holds_blocked :: "Layer list \<Rightarrow> bool list list \<Rightarrow> heap \<Rightarrow> bool" where
  "holds_blocked layers bl loc \<longleftrightarrow>
     length loc = length layers \<and> length bl = length layers
     \<and> (\<forall>u < length layers. loc ! u = (layers ! u)\<lparr>is_blocked := Some (bl ! u)\<rparr>)"

text \<open>
  A layer that is exhausted after the first path, before a layer of two candidates whose
  second candidate is the true one.
\<close>

definition narrow_layer :: Layer where
  "narrow_layer =
     \<lparr>iokrscores = [0.9], wtx = [1.0], rt_cand_list = 1.0,
      is_true_identification = [True], is_blocked = None\<rparr>"

definition second_true_layer :: Layer where
  "second_true_layer =
     \<lparr>iokrscores = [0.8, 0.6], wtx = [1.5, 0.9], rt_cand_list = 5.0,
      is_true_identification = [False, True], is_blocked = None\<rparr>"

section \<open>Evaluation\<close>

lemmas solver_defs = sp_layer_step_def sp_head_step_def sp_tail_step_def
  sec_forward_def sec_layer_step_def sec_head_step_def sec_tail_step_def
  weight_func_max_def py_get_def first_tables_def new_row_def append_row_def relax_def
  n_cand_def extract_path_def argmin_def backtrack.simps py_index_def xle_def Let_def upt_rec
  sp_check_layer_def sec_check_layer_def blocked_def

lemmas rerank_defs = perform_reranking_of_candidates_def deepcopy_def init_blocked_def
  rerank_iteration_def block_step_def exhausted_step_def t_map_def topk_accs_def
  outcome_def final_heap_def shortest_path_exclude_candidates_def

lemma first_tables_sel [simp]:
  "S_path (first_tables cd) = [map (\<lambda>score. Fin (- score)) (iokrscores (cd ! 0))]"
  "dW_path (first_tables cd) = [replicate (length (iokrscores (cd ! 0))) (Fin 0)]"
  "parents (first_tables cd) = [replicate (length (iokrscores (cd ! 0))) NoParent]"
  by (simp_all add: first_tables_def Let_def)

section \<open>The scenario\<close>

text \<open>
  C1, as stated: on the two layers of the scenario, \<open>shortest_path\<close> with
  \<open>_weight_func_max\<close> would return the path \<open>[0, 0]\<close> of length \<open>-1.2\<close>. It does not.
\<close>

theorem scenario_not_first_candidates:
  "shortest_path [scenario_layer0, scenario_layer1] weight_func_max None False scenario_kwargs
     \<noteq> Inr ([0, 0], Fin (- 1.2))"
  by (simp add: shortest_path_def solver_defs scenario_layer0_def scenario_layer1_def
        scenario_kwargs_def)

text \<open>
  C1, amended: the path through the second candidate of layer 0 is shorter, since its
  order value \<open>1.0\<close> is below the \<open>1.5\<close> of the first candidate of layer 1 and the edge
  carries no penalty: \<open>-0.5 + (-0.8) = -1.3 < -1.2\<close>. The solver returns \<open>[1, 0]\<close> and
  \<open>-1.3\<close>, with or without the input checks.
\<close>

theorem scenario_shortest_path:
  "shortest_path [scenario_layer0, scenario_layer1] weight_func_max None check_input
     scenario_kwargs = Inr ([1, 0], Fin (- 1.3))"
  by (cases check_input)
     (simp_all add: shortest_path_def solver_defs scenario_layer0_def scenario_layer1_def
        scenario_kwargs_def)

section \<open>The weight function\<close>

text \<open>
  C3: for adjacent layers \<open>t\<close>, \<open>t + 1\<close> and candidates \<open>i\<close>, \<open>j\<close>, the order
  difference is \<open>0\<close> when the retention times differ by at most \<open>epsilon_rt\<close> and the
  difference of the order values otherwise; it is replaced by its sign under \<open>use_sign\<close>;
  the penalty is its positive part, or the logarithm of that plus one under \<open>use_log\<close>;
  the weight is the negated score of the tail node plus \<open>D\<close> times the penalty.
\<close>

theorem weight_func_max_value:
  assumes "t + 1 < length cand_data"
      and "j < length (iokrscores (cand_data ! (t + 1)))"
      and "\<not> xle (Fin \<bar>rt_cand_list (cand_data ! t) - rt_cand_list (cand_data ! (t + 1))\<bar>)
                 (epsilon_rt kw)
           \<longrightarrow> i < length (wtx (cand_data ! t)) \<and> j < length (wtx (cand_data ! (t + 1)))"
  shows "weight_func_max cand_data (t, i) (t + 1, j) kw =
     (let order_delta0 =
            (if xle (Fin \<bar>rt_cand_list (cand_data ! t) - rt_cand_list (cand_data ! (t + 1))\<bar>)
                  (epsilon_rt kw)
             then 0 else wtx (cand_data ! t) ! i - wtx (cand_data ! (t + 1)) ! j);
          order_delta = (if use_sign kw then sgn order_delta0 else order_delta0);
          penalty0 = max 0 order_delta;
          penalty = (if use_log kw then ln (penalty0 + 1) else penalty0)
      in Inr (- (iokrscores (cand_data ! (t + 1)) ! j) + D kw * penalty, order_delta))"
  using assms by (simp add: weight_func_max_def py_get_def Let_def)

theorem weight_func_max_value_witness:
  "weight_func_max [scenario_layer0, scenario_layer1] (0, 0) (0 + 1, 1) scenario_kwargs
     = Inr (0.5, 1.1)"
  using weight_func_max_value [of 0 "[scenario_layer0, scenario_layer1]" 1 scenario_kwargs 0]
  by (simp add: scenario_layer0_def scenario_layer1_def scenario_kwargs_def xle_def Let_def)

section \<open>A single layer\<close>

lemma sorted_desc_head: "is_sorted_desc (x # xs) \<Longrightarrow> y \<in> set xs \<Longrightarrow> y \<le> x"
  by (induction xs arbitrary: x) (auto, force)

lemma argmin_list_less: "xs \<noteq> [] \<Longrightarrow> argmin_list xs < length xs"
  by (induction xs rule: argmin_list.induct) (auto simp: Let_def)

lemma argmin_neg_sorted:
  "is_sorted_desc xs \<Longrightarrow> argmin_list (map (\<lambda>score. Fin (- score)) xs) = 0"
proof (cases xs)
  case Nil
  then show ?thesis by simp
next
  case (Cons x ys)
  assume s: "is_sorted_desc xs"
  show ?thesis
  proof (cases ys)
    case Nil
    with Cons show ?thesis by simp
  next
    case (Cons y zs)
    let ?m = "map (\<lambda>score. Fin (- score)) ys"
    have "argmin_list ?m < length ?m" using Cons by (intro argmin_list_less) simp
    then have "ys ! argmin_list ?m \<in> set ys" by simp
    then have "ys ! argmin_list ?m \<le> x" using s \<open>xs = x # ys\<close> sorted_desc_head by blast
    moreover have "?m ! argmin_list ?m = Fin (- (ys ! argmin_list ?m))"
      using \<open>argmin_list ?m < length ?m\<close> by simp
    ultimately have "xle (Fin (- x)) (?m ! argmin_list ?m)" by (simp add: xle_def)
    then show ?thesis using Cons \<open>xs = x # ys\<close> by (simp add: Let_def)
  qed
qed

lemma check_single:
  assumes "is_sorted_desc (iokrscores l)"
      and "excl \<longrightarrow> (\<exists>b. is_blocked l = Some b \<and> length b = length (iokrscores l))"
  shows "for_each (sec_check_layer [l] excl) [0..<length [l]] MInf = Inr (Fin (rt_cand_list l))"
  using assms by (auto simp: sec_check_layer_def xle_def)

text \<open>
  C10: with exactly one layer the loop over the layers does not run, so neither the
  cut-off nor the blocked flags are read after the input checks: for a layer with
  descending scores the path is \<open>[0]\<close>, the candidate with the highest score, and the
  length is the negated score of that candidate, whatever the cut-off and whichever
  candidates are blocked.
\<close>

theorem single_layer_ignores_cut_off_and_blocking:
  assumes "iokrscores l \<noteq> []" and "is_sorted_desc (iokrscores l)"
      and "check_input \<and> excl
           \<longrightarrow> (\<exists>b. is_blocked l = Some b \<and> length b = length (iokrscores l))"
  shows "shortest_path_exclude_candidates [l] weight_fun cut_off check_input excl kw
         = Inr ([0], Fin (- (iokrscores l ! 0)))"
proof -
  have chk: "(if check_input then for_each (sec_check_layer [l] excl) [0..<length [l]] MInf
              else Inr MInf)
      = Inr (if check_input then Fin (rt_cand_list l) else MInf)"
    using assms check_single[of l excl] by auto
  have fw: "sec_forward [l] weight_fun cut_off excl kw = Inr (first_tables [l])"
    by (simp add: sec_forward_def)
  have am: "argmin (last (S_path (first_tables [l]))) = Inr 0"
    using assms by (simp add: argmin_def argmin_neg_sorted)
  have bt: "backtrack (parents (first_tables [l])) 0 [0] = Inr [0]"
    using assms(1) by (simp add: backtrack.simps py_index_def py_get_def)
  have "extract_path (first_tables [l]) (length [l]) = Inr ([0], Fin (- (iokrscores l ! 0)))"
    using am bt assms(1) by (simp add: extract_path_def)
  then show ?thesis
    unfolding shortest_path_exclude_candidates_def Let_def chk fw by simp
qed

theorem single_layer_ignores_cut_off_and_blocking_witness:
  "shortest_path_exclude_candidates [blocked_top_layer] weight_func_max (Some 0) True True
     scenario_kwargs = Inr ([0], Fin (- 0.9))
   \<and> blocked blocked_top_layer 0 = Inr True"
  using single_layer_ignores_cut_off_and_blocking
          [of blocked_top_layer True True weight_func_max "Some 0" scenario_kwargs]
  by (simp add: blocked_top_layer_def blocked_def py_get_def)

text \<open>
  C2, at a single layer whose first candidate is blocked and whose second is not: the
  solver, asked to exclude blocked candidates, returns the blocked candidate \<open>0\<close>.
\<close>

theorem single_layer_returns_blocked_candidate:
  "shortest_path_exclude_candidates [blocked_top_layer] weight_func_max None True True
     scenario_kwargs = Inr ([0], Fin (- 0.9))
   \<and> blocked blocked_top_layer 0 = Inr True \<and> blocked blocked_top_layer 1 = Inr False"
  by (simp add: shortest_path_exclude_candidates_def solver_defs blocked_top_layer_def
        scenario_kwargs_def)

text \<open>
  C5, at a single layer of two candidates and \<open>topk = 3\<close>: the reranking returns three
  entries, the blocked candidate \<open>0\<close> each time, and accuracies beyond 100.
\<close>

theorem single_layer_reranking_not_exhausted:
  "outcome (perform_reranking_of_candidates [scenario_layer0] [0] 3 None
              (Some weight_func_max) scenario_kwargs)
   = Inr ([100, 200, 300], [[0], [0], [0]], [Fin (- 0.9), Fin (- 0.9), Fin (- 0.9)])"
  by (simp add: rerank_defs solver_defs scenario_layer0_def scenario_kwargs_def)

section \<open>The accuracies of the reranking\<close>

lemma cumsum_from_length [simp]: "length (cumsum_from a xs) = length xs"
  by (induction xs arbitrary: a) auto

lemma cumsum_from_nth:
  "m < length xs \<Longrightarrow> cumsum_from a xs ! m = a + sum_list (take (Suc m) xs)"
proof (induction xs arbitrary: a m)
  case Nil
  then show ?case by simp
next
  case (Cons x xs)
  then show ?case by (cases m) auto
qed

lemma cumsum_from_mono:
  assumes "Suc m < length xs"
  shows "cumsum_from a xs ! m \<le> cumsum_from a xs ! Suc m"
proof -
  have "take (Suc (Suc m)) xs = take (Suc m) xs @ [xs ! Suc m]"
    using assms by (simp add: take_Suc_conv_app_nth)
  then show ?thesis using assms by (simp add: cumsum_from_nth)
qed

lemma topk_accs_length [simp]: "length (topk_accs nc n) = length nc"
  by (simp add: topk_accs_def)

lemma topk_accs_nth:
  "m < length nc \<Longrightarrow> topk_accs nc n ! m = real (sum_list (take (Suc m) nc)) / real n * 100"
  by (simp add: topk_accs_def cumsum_from_nth)

lemma topk_accs_mono:
  assumes "1 \<le> m" and "m < length nc"
  shows "topk_accs nc n ! (m - 1) \<le> topk_accs nc n ! m"
proof -
  obtain m' where m: "m = Suc m'" using assms(1) by (cases m) auto
  have l: "Suc m' < length nc" using assms(2) m by simp
  have "real (cumsum_from 0 nc ! m') \<le> real (cumsum_from 0 nc ! Suc m')"
    using cumsum_from_mono[OF l] by simp
  then have "real (cumsum_from 0 nc ! m') / real n * 100
               \<le> real (cumsum_from 0 nc ! Suc m') / real n * 100"
    by (simp add: divide_right_mono)
  then show ?thesis using l m by (simp add: topk_accs_def)
qed

lemma reranking_accs_form:
  assumes "outcome (perform_reranking_of_candidates h cand_data topk cut_off weight_function kw)
             = Inr (accs, ps, ls)"
  shows "\<exists>nc. accs = topk_accs nc (length cand_data)"
  using assms
  by (auto simp: perform_reranking_of_candidates_def outcome_def deepcopy_def Let_def
           split: sum.splits option.splits prod.splits)

section \<open>The input checks\<close>

lemma for_each_cong:
  "(\<And>x s. x \<in> set xs \<Longrightarrow> f x s = g x s) \<Longrightarrow> for_each f xs s = for_each g xs s"
  by (induction xs arbitrary: s) (auto split: sum.splits)

lemma xle_Fin [simp]: "xle (Fin a) (Fin b) = (a \<le> b)"
  by (auto simp: xle_def)

lemma xle_MInf [simp]: "xle MInf x"
  by (cases x) (auto simp: xle_def)

lemma xle_trans_Fin: "xle r (Fin a) \<Longrightarrow> a \<le> b \<Longrightarrow> xle r (Fin b)"
  by (cases r) (auto simp: xle_def)

lemma sec_check_layer_Inr:
  "sec_check_layer cand_data excl t rt = Inr r \<longleftrightarrow>
     layer_ok cand_data excl t \<and> xle rt (Fin (rt_cand_list (cand_data ! t)))
     \<and> r = Fin (rt_cand_list (cand_data ! t))"
  by (auto simp: sec_check_layer_def layer_ok_def split: option.splits)

lemma sec_check_layer_Inl:
  "sec_check_layer cand_data excl t rt = Inl e \<Longrightarrow> e = AssertionError"
  by (auto simp: sec_check_layer_def split: option.splits if_splits)

lemma sec_check_Inl:
  "for_each (sec_check_layer cand_data excl) ts rt = Inl e \<Longrightarrow> e = AssertionError"
  by (induction ts arbitrary: rt) (auto split: sum.splits dest: sec_check_layer_Inl)

lemma sec_check_Inr:
  "for_each (sec_check_layer cand_data excl) ts rt = Inr r \<Longrightarrow>
     (\<forall>t \<in> set ts. layer_ok cand_data excl t \<and> xle rt (Fin (rt_cand_list (cand_data ! t))))
     \<and> sorted (map (\<lambda>t. rt_cand_list (cand_data ! t)) ts)"
proof (induction ts arbitrary: rt)
  case Nil
  then show ?case by simp
next
  case (Cons t ts)
  from Cons.prems obtain r1 where
    1: "sec_check_layer cand_data excl t rt = Inr r1"
    and 2: "for_each (sec_check_layer cand_data excl) ts r1 = Inr r"
    by (auto split: sum.splits)
  from 1 have ok: "layer_ok cand_data excl t" and le: "xle rt (Fin (rt_cand_list (cand_data ! t)))"
    and r1: "r1 = Fin (rt_cand_list (cand_data ! t))"
    by (simp_all add: sec_check_layer_Inr)
  from Cons.IH[OF 2] r1 have
    ih: "\<forall>u \<in> set ts. layer_ok cand_data excl u
            \<and> rt_cand_list (cand_data ! t) \<le> rt_cand_list (cand_data ! u)"
    and so: "sorted (map (\<lambda>t. rt_cand_list (cand_data ! t)) ts)"
    by auto
  show ?case using ok le ih so by (auto intro: xle_trans_Fin)
qed

lemma sec_check_complete:
  assumes "\<forall>t \<in> set ts. layer_ok cand_data excl t"
      and "sorted (map (\<lambda>t. rt_cand_list (cand_data ! t)) ts)"
      and "ts \<noteq> [] \<longrightarrow> xle rt (Fin (rt_cand_list (cand_data ! hd ts)))"
  shows "\<exists>r. for_each (sec_check_layer cand_data excl) ts rt = Inr r"
  using assms
proof (induction ts arbitrary: rt)
  case Nil
  then show ?case by simp
next
  case (Cons t ts)
  have 1: "sec_check_layer cand_data excl t rt = Inr (Fin (rt_cand_list (cand_data ! t)))"
    using Cons.prems by (simp add: sec_check_layer_Inr)
  have "\<exists>r. for_each (sec_check_layer cand_data excl) ts (Fin (rt_cand_list (cand_data ! t))) = Inr r"
    using Cons.prems by (intro Cons.IH) (auto simp: neq_Nil_conv)
  then show ?case using 1 by simp
qed

lemma violation_raises:
  assumes "(\<exists>t < length cand_data. \<not> is_sorted_desc (iokrscores (cand_data ! t)))
           \<or> (\<exists>t. t + 1 < length cand_data
                   \<and> rt_cand_list (cand_data ! (t + 1)) < rt_cand_list (cand_data ! t))
           \<or> (excl \<and> (\<exists>t < length cand_data. \<forall>b. is_blocked (cand_data ! t) = Some b
                           \<longrightarrow> length b \<noteq> length (iokrscores (cand_data ! t))))"
  shows "shortest_path_exclude_candidates cand_data weight_fun cut_off True excl kw
           = Inl AssertionError"
proof (cases "for_each (sec_check_layer cand_data excl) [0..<length cand_data] MInf")
  case (Inl e)
  then show ?thesis
    using sec_check_Inl[OF Inl] by (simp add: shortest_path_exclude_candidates_def)
next
  case (Inr r)
  from sec_check_Inr[OF Inr]
  have ok: "\<forall>t < length cand_data. layer_ok cand_data excl t"
   and so: "sorted (map (\<lambda>t. rt_cand_list (cand_data ! t)) [0..<length cand_data])"
    by auto
  have "\<And>t. t + 1 < length cand_data \<Longrightarrow>
           rt_cand_list (cand_data ! t) \<le> rt_cand_list (cand_data ! (t + 1))"
  proof -
    fix t assume t: "t + 1 < length cand_data"
    have "map (\<lambda>t. rt_cand_list (cand_data ! t)) [0..<length cand_data] ! t
          \<le> map (\<lambda>t. rt_cand_list (cand_data ! t)) [0..<length cand_data] ! (t + 1)"
      using so t by (intro sorted_nth_mono) auto
    then show "rt_cand_list (cand_data ! t) \<le> rt_cand_list (cand_data ! (t + 1))"
      using t by simp
  qed
  with ok assms show ?thesis by (auto simp: layer_ok_def) force+
qed

lemma set_true_sel [simp]:
  "iokrscores (set_true f l) = iokrscores l" "wtx (set_true f l) = wtx l"
  "rt_cand_list (set_true f l) = rt_cand_list l" "is_blocked (set_true f l) = is_blocked l"
  by (simp_all add: set_true_def)

lemma py_get_map: "py_get (map f xs) i = (case py_get xs i of Inl e \<Rightarrow> Inl e | Inr x \<Rightarrow> Inr (f x))"
  by (simp add: py_get_def)

lemma weight_func_max_true:
  "weight_func_max (map (set_true f) cand_data) u v kw = weight_func_max cand_data u v kw"
  by (cases u; cases v) (simp add: weight_func_max_def py_get_map split: sum.splits)

lemma blocked_set_true [simp]: "blocked (set_true f l) i = blocked l i"
  by (simp add: blocked_def)

lemma sec_check_layer_true:
  "t < length cand_data \<Longrightarrow>
   sec_check_layer (map (set_true f) cand_data) excl t rt = sec_check_layer cand_data excl t rt"
  by (simp add: sec_check_layer_def cong: option.case_cong if_cong)

lemma sec_tail_step_true:
  "t + 1 < length cand_data \<Longrightarrow>
   sec_tail_step (map (set_true f) cand_data) weight_func_max excl kw t i a b j r
     = sec_tail_step cand_data weight_func_max excl kw t i a b j r"
  by (simp add: sec_tail_step_def weight_func_max_true cong: sum.case_cong if_cong)

lemma sec_head_step_true:
  "t + 1 < length cand_data \<Longrightarrow>
   sec_head_step (map (set_true f) cand_data) weight_func_max excl kw t n S dW i r
     = sec_head_step cand_data weight_func_max excl kw t n S dW i r"
  by (simp add: sec_head_step_def sec_tail_step_true cong: for_each_cong sum.case_cong if_cong)

lemma sec_layer_step_true:
  "t + 1 < length cand_data \<Longrightarrow>
   sec_layer_step (map (set_true f) cand_data) weight_func_max cut_off excl kw t T
     = sec_layer_step cand_data weight_func_max cut_off excl kw t T"
  by (simp add: sec_layer_step_def sec_head_step_true cong: for_each_cong)

lemma first_tables_true:
  "first_tables (map (set_true f) cand_data) = first_tables cand_data"
  by (cases cand_data) (simp_all add: first_tables_def)

lemma solver_true:
  "shortest_path_exclude_candidates (map (set_true f) cand_data) weight_func_max cut_off
       check_input excl kw
   = shortest_path_exclude_candidates cand_data weight_func_max cut_off check_input excl kw"
proof -
  have c: "for_each (sec_check_layer (map (set_true f) cand_data) excl) [0..<length cand_data] MInf
         = for_each (sec_check_layer cand_data excl) [0..<length cand_data] MInf"
    by (rule for_each_cong) (simp add: sec_check_layer_true)
  have fw: "sec_forward (map (set_true f) cand_data) weight_func_max cut_off excl kw
          = sec_forward cand_data weight_func_max cut_off excl kw"
    unfolding sec_forward_def first_tables_true length_map
    by (rule for_each_cong) (simp add: sec_layer_step_true)
  show ?thesis
    by (simp add: shortest_path_exclude_candidates_def c fw Let_def cong: sum.case_cong if_cong)
qed

text \<open>
  C8, as stated: with the input checks enabled, a layer without a true candidate or with
  two of them would make the call raise. It returns a path.
\<close>

theorem true_count_not_validated:
  "shortest_path_exclude_candidates [no_true_layer0, two_true_layer1] weight_func_max None
     True False scenario_kwargs = Inr ([1, 0], Fin (- 1.3))
   \<and> filter (\<lambda>x. x) (is_true_identification no_true_layer0) = []
   \<and> length (filter (\<lambda>x. x) (is_true_identification two_true_layer1)) = 2"
  by (simp add: shortest_path_exclude_candidates_def solver_defs no_true_layer0_def
        two_true_layer1_def scenario_layer0_def scenario_layer1_def scenario_kwargs_def)

text \<open>
  C8, amended: with the input checks enabled, scores that are not descending, a retention
  time below that of the layer before, and, when blocked candidates are excluded, blocked
  flags that are missing or not as many as the scores make the call raise an assertion
  error, with no result. The ground-truth flags are not checked: with \<open>_weight_func_max\<close>
  the call gives the same result whatever they are.
\<close>

theorem validation_ignores_true_flags:
  "((\<exists>t < length cand_data. \<not> is_sorted_desc (iokrscores (cand_data ! t)))
      \<or> (\<exists>t. t + 1 < length cand_data
              \<and> rt_cand_list (cand_data ! (t + 1)) < rt_cand_list (cand_data ! t))
      \<or> (excl \<and> (\<exists>t < length cand_data. \<forall>b. is_blocked (cand_data ! t) = Some b
                      \<longrightarrow> length b \<noteq> length (iokrscores (cand_data ! t))))
     \<longrightarrow> shortest_path_exclude_candidates cand_data weight_fun cut_off True excl kw
           = Inl AssertionError)
   \<and> shortest_path_exclude_candidates
        (map (\<lambda>l. l\<lparr>is_true_identification := f l\<rparr>) cand_data) weight_func_max cut_off
        check_input excl kw
     = shortest_path_exclude_candidates cand_data weight_func_max cut_off check_input excl kw"
  using violation_raises[of cand_data excl weight_fun cut_off kw]
        solver_true[of f cand_data cut_off check_input excl kw]
  unfolding set_true_def by blast

theorem validation_ignores_true_flags_witness:
  "shortest_path_exclude_candidates [unsorted_layer] weight_func_max None True False
     scenario_kwargs = Inl AssertionError
   \<and> shortest_path_exclude_candidates
        (map (\<lambda>l. l\<lparr>is_true_identification := [False, False]\<rparr>)
           [scenario_layer0, scenario_layer1]) weight_func_max None True False scenario_kwargs
     = shortest_path_exclude_candidates [scenario_layer0, scenario_layer1] weight_func_max
         None True False scenario_kwargs"
proof -
  have u: "\<exists>t < length [unsorted_layer]. \<not> is_sorted_desc (iokrscores ([unsorted_layer] ! t))"
    by (simp add: unsorted_layer_def scenario_layer0_def)
  show ?thesis
    using u validation_ignores_true_flags
              [of "[unsorted_layer]" False weight_func_max None scenario_kwargs
                  "\<lambda>l. [False, False]" True]
          validation_ignores_true_flags
              [of "[scenario_layer0, scenario_layer1]" False weight_func_max None
                  scenario_kwargs "\<lambda>l. [False, False]" True]
    by blast
qed

section \<open>Without order information\<close>

lemma for_each_append:
  "for_each f (xs @ ys) s = (case for_each f xs s of Inl e \<Rightarrow> Inl e | Inr s' \<Rightarrow> for_each f ys s')"
  by (induction xs arbitrary: s) (auto split: sum.splits)

lemma xless_PInf [simp]: "xless (Fin a) PInf" "\<not> xless PInf x"
  by simp_all

lemma xless_add_cancel: "xle a b \<Longrightarrow> \<not> xless (xadd b w) (xadd a w)"
  by (cases a; cases b) (auto simp: xle_def)

lemma relax_fst:
  "fst (relax s dw i j (w, d) r)
     = (if xless (xadd s w) (fst r ! j) then (fst r)[j := xadd s w] else fst r)"
  by (cases r) (auto simp: relax_def Let_def)

lemma relax_par:
  "snd (snd (relax s dw i j (w, d) r))
     = (if xless (xadd s w) (fst r ! j) then (snd (snd r))[j := Parent i] else snd (snd r))"
  by (cases r) (auto simp: relax_def Let_def)

lemma relax_same: "\<not> xless (xadd s w) (fst r ! j) \<Longrightarrow> relax s dw i j (w, d) r = r"
  by (cases r) (auto simp: relax_def Let_def)

lemma fold_relax_length:
  "length (fst (fold (\<lambda>j. relax s dw i j (w j, d j)) js r)) = length (fst r)"
  "length (snd (snd (fold (\<lambda>j. relax s dw i j (w j, d j)) js r))) = length (snd (snd r))"
  by (induction js arbitrary: r) (auto simp: relax_fst relax_par)

lemma fold_relax_nth:
  assumes "distinct js" and "j < length (fst r)" and "length (snd (snd r)) = length (fst r)"
  shows "fst (fold (\<lambda>j. relax s dw i j (w j, d j)) js r) ! j
           = (if j \<in> set js \<and> xless (xadd s (w j)) (fst r ! j) then xadd s (w j) else fst r ! j)
       \<and> snd (snd (fold (\<lambda>j. relax s dw i j (w j, d j)) js r)) ! j
           = (if j \<in> set js \<and> xless (xadd s (w j)) (fst r ! j) then Parent i
              else snd (snd r) ! j)"
  using assms
proof (induction js arbitrary: r)
  case Nil
  then show ?case by simp
next
  case (Cons k js)
  let ?r1 = "relax s dw i k (w k, d k) r"
  have d: "distinct js" and k: "k \<notin> set js" using Cons.prems(1) by auto
  have l1: "j < length (fst ?r1)" "length (snd (snd ?r1)) = length (fst ?r1)"
    using Cons.prems(2,3) by (auto simp: relax_fst relax_par)
  note ih = Cons.IH[OF d l1]
  show ?case
  proof (cases "j = k")
    case True
    then have "j \<notin> set js" using k by simp
    then show ?thesis using ih True Cons.prems(2,3) by (auto simp: relax_fst relax_par)
  next
    case False
    then have "fst ?r1 ! j = fst r ! j" "snd (snd ?r1) ! j = snd (snd r) ! j"
      by (auto simp: relax_fst relax_par)
    then show ?thesis using ih False by auto
  qed
qed

lemma fold_relax_same:
  "\<forall>j \<in> set js. \<not> xless (xadd s (w j)) (fst r ! j) \<Longrightarrow>
   fold (\<lambda>j. relax s dw i j (w j, d j)) js r = r"
  by (induction js) (auto simp: relax_same)

lemma sp_tail_loop:
  "\<forall>j \<in> set js. weight_fun cand_data (t, i) (t + 1, j) kw = Inr (w j, d j) \<Longrightarrow>
   for_each (sp_tail_step cand_data weight_fun kw t i s dw) js r
     = Inr (fold (\<lambda>j. relax s dw i j (w j, d j)) js r)"
  by (induction js arbitrary: r) (auto simp: sp_tail_step_def)

lemma weight_func_max_inf:
  assumes "epsilon_rt kw = PInf" and "t + 1 < length cand_data"
      and "j < length (iokrscores (cand_data ! (t + 1)))"
  shows "weight_func_max cand_data (t, i) (t + 1, j) kw
           = Inr (- (iokrscores (cand_data ! (t + 1)) ! j), 0)"
  using assms by (simp add: weight_func_max_def py_get_def xle_def Let_def)


lemma sp_head_loop_same:
  assumes "\<forall>i \<in> set hs. \<forall>j < n. weight_fun cand_data (t, i) (t + 1, j) kw = Inr (w j, 0)"
      and "\<forall>i \<in> set hs. \<forall>j < n. \<not> xless (xadd (S_t ! i) (w j)) (fst r ! j)"
  shows "for_each (sp_head_step cand_data weight_fun kw t n S_t dW_t) hs r = Inr r"
  using assms
proof (induction hs)
  case Nil
  then show ?case by simp
next
  case (Cons i hs)
  have "for_each (sp_tail_step cand_data weight_fun kw t i (S_t ! i) (dW_t ! i)) [0..<n] r
          = Inr (fold (\<lambda>j. relax (S_t ! i) (dW_t ! i) i j (w j, 0)) [0..<n] r)"
    using Cons.prems(1) by (intro sp_tail_loop) simp
  also have "fold (\<lambda>j. relax (S_t ! i) (dW_t ! i) i j (w j, 0)) [0..<n] r = r"
    using Cons.prems(2) by (intro fold_relax_same) simp
  finally show ?case using Cons by (simp add: sp_head_step_def)
qed

lemma sp_first_head:
  assumes "\<forall>j < n. weight_fun cand_data (t, i) (t + 1, j) kw = Inr (w j, 0)"
      and "S_t ! i = Fin a"
  shows "\<exists>dW. sp_head_step cand_data weight_fun kw t n S_t dW_t i (new_row n)
           = Inr (map (\<lambda>j. Fin (a + w j)) [0..<n], dW, replicate n (Parent i))"
proof -
  let ?r = "fold (\<lambda>j. relax (S_t ! i) (dW_t ! i) i j (w j, 0)) [0..<n] (new_row n)"
  have e: "sp_head_step cand_data weight_fun kw t n S_t dW_t i (new_row n) = Inr ?r"
    unfolding sp_head_step_def using assms(1) by (intro sp_tail_loop) simp
  have l: "length (fst ?r) = n" "length (snd (snd ?r)) = n"
    by (simp_all add: fold_relax_length new_row_def)
  have nth: "fst ?r ! j = Fin (a + w j) \<and> snd (snd ?r) ! j = Parent i" if "j < n" for j
    using fold_relax_nth[where js = "[0..<n]" and j = j and r = "new_row n" and s = "S_t ! i"
            and w = w and i = i and dw = "dW_t ! i" and d = "\<lambda>_. 0"] that assms(2)
    by (simp add: new_row_def)
  have "fst ?r = map (\<lambda>j. Fin (a + w j)) [0..<n]"
    using l nth by (intro nth_equalityI) auto
  moreover have "snd (snd ?r) = replicate n (Parent i)"
    using l nth by (intro nth_equalityI) auto
  ultimately have "?r = (map (\<lambda>j. Fin (a + w j)) [0..<n], fst (snd ?r), replicate n (Parent i))"
    by (simp add: prod_eq_iff)
  then show ?thesis using e by (intro exI[of _ "fst (snd ?r)"]) simp
qed

lemma sp_head_loop_top:
  assumes w: "\<forall>i < m. \<forall>j < n. weight_fun cand_data (t, i) (t + 1, j) kw = Inr (w j, 0)"
      and a: "S_t ! 0 = Fin a" and le: "\<forall>i < m. xle (S_t ! 0) (S_t ! i)" and m: "0 < m"
  shows "\<exists>dW. for_each (sp_head_step cand_data weight_fun kw t n S_t dW_t) [0..<m] (new_row n)
           = Inr (map (\<lambda>j. Fin (a + w j)) [0..<n], dW, replicate n (Parent 0))"
proof -
  obtain dW where 1: "sp_head_step cand_data weight_fun kw t n S_t dW_t 0 (new_row n)
           = Inr (map (\<lambda>j. Fin (a + w j)) [0..<n], dW, replicate n (Parent 0))"
    using sp_first_head[of n weight_fun cand_data t 0 kw w S_t a dW_t] w a m by auto
  let ?r = "(map (\<lambda>j. Fin (a + w j)) [0..<n], dW, replicate n (Parent 0))"
  have "\<not> xless (xadd (S_t ! i) (w j)) (fst ?r ! j)" if "i < m" "j < n" for i j
  proof -
    have "fst ?r ! j = xadd (S_t ! 0) (w j)" using that a by simp
    then show ?thesis using le that xless_add_cancel by simp
  qed
  then have 2: "for_each (sp_head_step cand_data weight_fun kw t n S_t dW_t) [Suc 0..<m] ?r = Inr ?r"
    using w by (intro sp_head_loop_same[where w = w]) auto
  have "[0..<m] = 0 # [Suc 0..<m]" using m by (simp add: upt_conv_Cons)
  then show ?thesis using 1 2 by auto
qed


lemma sorted_desc_nth: "is_sorted_desc xs \<Longrightarrow> i < length xs \<Longrightarrow> xs ! i \<le> xs ! 0"
  by (cases xs; cases i) (auto intro: sorted_desc_head)

lemma argmin_first_min:
  assumes "\<forall>i < length xs. xle (xs ! 0) (xs ! i)"
  shows "argmin_list xs = 0"
proof (cases xs)
  case Nil
  then show ?thesis by simp
next
  case (Cons x ys)
  show ?thesis
  proof (cases ys)
    case Nil
    with Cons show ?thesis by simp
  next
    case (Cons y zs)
    have "argmin_list ys < length ys" using Cons by (intro argmin_list_less) simp
    then have "xle x (ys ! argmin_list ys)"
      using assms \<open>xs = x # ys\<close> by (auto dest: spec[of _ "Suc (argmin_list ys)"])
    then show ?thesis using Cons \<open>xs = x # ys\<close> by (simp add: Let_def)
  qed
qed

lemma py_index_nat: "t < length P \<Longrightarrow> py_index P (int t) = Inr (P ! t)"
  by (simp add: py_index_def)

lemma backtrack_zero:
  assumes "t < length P" and "P ! 0 \<noteq> []" and "P ! 0 ! 0 = NoParent"
      and "\<forall>u. 1 \<le> u \<and> u \<le> t \<longrightarrow> P ! u \<noteq> [] \<and> P ! u ! 0 = Parent 0"
      and "nodes \<noteq> []" and "last nodes = 0"
  shows "backtrack P (int t) nodes = Inr (nodes @ replicate t 0)"
  using assms
proof (induction t arbitrary: nodes)
  case 0
  then show ?case
    by (subst backtrack.simps) (simp add: py_index_def py_get_def)
next
  case (Suc t)
  have row: "py_index P (int (Suc t)) = Inr (P ! Suc t)"
    using Suc.prems(1) by (rule py_index_nat)
  have par: "py_get (P ! Suc t) (last nodes) = Inr (Parent 0)"
    using Suc.prems(4,6) by (simp add: py_get_def)
  have "backtrack P (int t) (nodes @ [0]) = Inr ((nodes @ [0]) @ replicate t 0)"
    using Suc.prems by (intro Suc.IH) auto
  moreover have "int (Suc t) - 1 = int t" by simp
  ultimately have
    rec: "backtrack P (int (Suc t) - 1) (nodes @ [0]) = Inr (nodes @ replicate (Suc t) 0)"
    by (simp add: replicate_app_Cons_same)
  show ?case
    unfolding backtrack.simps[of P "int (Suc t)" nodes] row par
    by (simp only: par rec sum.case parent.case)
qed

lemma row_width_pos:
  "iokrscores (cand_data ! t) \<noteq> [] \<Longrightarrow> cut_off \<noteq> Some 0 \<Longrightarrow> 0 < row_width cand_data cut_off t"
  "iokrscores (cand_data ! t) \<noteq> [] \<Longrightarrow> cut_off \<noteq> Some 0
     \<Longrightarrow> 0 < n_cand (length (iokrscores (cand_data ! t))) cut_off"
  by (auto simp: row_width_def n_cand_def split: option.splits)

lemma row_width_le:
  "n_cand (length (iokrscores (cand_data ! t))) cut_off \<le> row_width cand_data cut_off t"
  "row_width cand_data cut_off t \<le> length (iokrscores (cand_data ! t))"
  by (auto simp: row_width_def n_cand_def split: option.splits)

lemma top_sum_Suc:
  "m < length cand_data \<Longrightarrow>
   top_sum cand_data (Suc m) = top_sum cand_data m + iokrscores (cand_data ! m) ! 0"
  by (simp add: top_sum_def take_Suc_conv_app_nth)

lemma greedy_first: "greedy_tables cand_data cut_off 0 (first_tables cand_data)"
proof -
  have "map (\<lambda>score. Fin (- score)) (iokrscores (cand_data ! 0))
          = map (\<lambda>i. Fin (- iokrscores (cand_data ! 0) ! i))
              [0..<length (iokrscores (cand_data ! 0))]"
    by (intro nth_equalityI) auto
  then show ?thesis
    by (simp add: greedy_tables_def row_width_def top_sum_def)
qed

lemma greedy_step:
  assumes g: "greedy_tables cand_data cut_off m T" and m: "Suc m < length cand_data"
      and e: "epsilon_rt kw = PInf" and c: "cut_off \<noteq> Some 0"
      and s: "\<forall>l \<in> set cand_data. iokrscores l \<noteq> [] \<and> is_sorted_desc (iokrscores l)"
  shows "\<exists>T'. sp_layer_step cand_data weight_func_max cut_off kw m T = Inr T'
              \<and> greedy_tables cand_data cut_off (Suc m) T'"
proof -
  let ?sc = "iokrscores (cand_data ! m)" and ?sc' = "iokrscores (cand_data ! Suc m)"
  let ?n = "n_cand (length ?sc) cut_off" and ?n' = "n_cand (length ?sc') cut_off"
  let ?a = "- top_sum cand_data m - ?sc ! 0"
  have lm: "cand_data ! m \<in> set cand_data" "cand_data ! Suc m \<in> set cand_data"
    using m by simp_all
  have ne: "?sc \<noteq> []" and so: "is_sorted_desc ?sc" using s lm by auto
  have pos: "0 < ?n" "0 < row_width cand_data cut_off m"
    using ne c row_width_pos by auto
  have row: "S_path T ! m = map (\<lambda>i. Fin (- top_sum cand_data m - ?sc ! i))
                              [0..<row_width cand_data cut_off m]"
    using g by (simp add: greedy_tables_def)
  have w: "\<forall>i < ?n. \<forall>j < ?n'. weight_func_max cand_data (m, i) (m + 1, j) kw
             = Inr (- (?sc' ! j), 0)"
  proof (intro allI impI)
    fix i j assume "j < ?n'"
    then have "j < length ?sc'" by (auto simp: n_cand_def split: option.splits)
    then show "weight_func_max cand_data (m, i) (m + 1, j) kw = Inr (- (?sc' ! j), 0)"
      using weight_func_max_inf[of kw m cand_data j i] m e by simp
  qed
  have a: "S_path T ! m ! 0 = Fin ?a" using row pos by simp
  have le: "\<forall>i < ?n. xle (S_path T ! m ! 0) (S_path T ! m ! i)"
  proof (intro allI impI)
    fix i assume i: "i < ?n"
    then have iw: "i < row_width cand_data cut_off m"
      using row_width_le(1)[of cand_data m cut_off] by simp
    then have "i < length ?sc" using row_width_le(2)[of cand_data cut_off m] by simp
    then have "?sc ! i \<le> ?sc ! 0" using so sorted_desc_nth by blast
    then show "xle (S_path T ! m ! 0) (S_path T ! m ! i)"
      using row pos iw by (simp add: xle_def)
  qed
  obtain dW where loop:
    "for_each (sp_head_step cand_data weight_func_max kw m ?n' (S_path T ! m) (dW_path T ! m))
       [0..<?n] (new_row ?n')
     = Inr (map (\<lambda>j. Fin (?a + - (?sc' ! j))) [0..<?n'], dW, replicate ?n' (Parent 0))"
    using sp_head_loop_top[where m = ?n and n = ?n' and weight_fun = weight_func_max
            and cand_data = cand_data and t = m and kw = kw and w = "\<lambda>j. - (?sc' ! j)"
            and S_t = "S_path T ! m" and a = ?a and dW_t = "dW_path T ! m"] w a le pos(1)
    by blast
  let ?T' = "append_row T (map (\<lambda>j. Fin (?a + - (?sc' ! j))) [0..<?n'], dW,
                            replicate ?n' (Parent 0))"
  have step: "sp_layer_step cand_data weight_func_max cut_off kw m T = Inr ?T'"
    using loop by (simp add: sp_layer_step_def Let_def)
  have ts: "- top_sum cand_data (Suc m) = ?a" using m by (simp add: top_sum_Suc)
  have len: "length (S_path T) = Suc m" "length (parents T) = Suc m"
    using g by (simp_all add: greedy_tables_def)
  have "greedy_tables cand_data cut_off (Suc m) ?T'"
    unfolding greedy_tables_def
  proof (intro conjI allI impI)
    show "S_path ?T' ! Suc m = map (\<lambda>i. Fin (- top_sum cand_data (Suc m) - ?sc' ! i))
                                 [0..<row_width cand_data cut_off (Suc m)]"
      using len ts by (simp add: append_row_def nth_append row_width_def)
    show "parents ?T' ! 0 = replicate (length (iokrscores (cand_data ! 0))) NoParent"
      using len g by (simp add: append_row_def nth_append greedy_tables_def)
    fix t assume t: "1 \<le> t \<and> t \<le> Suc m"
    show "parents ?T' ! t = replicate (row_width cand_data cut_off t) (Parent 0)"
    proof (cases "t = Suc m")
      case True
      then show ?thesis using len by (simp add: append_row_def nth_append row_width_def)
    next
      case False
      then have "t \<le> m" using t by simp
      then show ?thesis
        using len g t by (simp add: append_row_def nth_append greedy_tables_def)
    qed
  qed (use len in \<open>simp_all add: append_row_def\<close>)
  then show ?thesis using step by blast
qed

lemma greedy_forward:
  assumes "m < length cand_data" and "epsilon_rt kw = PInf" and "cut_off \<noteq> Some 0"
      and "\<forall>l \<in> set cand_data. iokrscores l \<noteq> [] \<and> is_sorted_desc (iokrscores l)"
  shows "\<exists>T. for_each (sp_layer_step cand_data weight_func_max cut_off kw) [0..<m]
                (first_tables cand_data) = Inr T
             \<and> greedy_tables cand_data cut_off m T"
  using assms(1)
proof (induction m)
  case 0
  then show ?case by (simp add: greedy_first)
next
  case (Suc m)
  then obtain T where T: "for_each (sp_layer_step cand_data weight_func_max cut_off kw) [0..<m]
                (first_tables cand_data) = Inr T" "greedy_tables cand_data cut_off m T"
    by auto
  obtain T' where "sp_layer_step cand_data weight_func_max cut_off kw m T = Inr T'"
      "greedy_tables cand_data cut_off (Suc m) T'"
    using greedy_step[OF T(2) Suc.prems assms(2,3,4)] by blast
  then show ?case using T(1) by (simp add: for_each_append)
qed

lemma greedy_extract:
  assumes g: "greedy_tables cand_data cut_off m T" and m: "m < length cand_data"
      and c: "cut_off \<noteq> Some 0"
      and s: "\<forall>l \<in> set cand_data. iokrscores l \<noteq> [] \<and> is_sorted_desc (iokrscores l)"
  shows "extract_path T (Suc m) = Inr (replicate (Suc m) 0, Fin (- top_sum cand_data (Suc m)))"
proof -
  let ?sc = "iokrscores (cand_data ! m)"
  have w: "\<And>t. t < length cand_data \<Longrightarrow> 0 < row_width cand_data cut_off t"
    using s c by (intro row_width_pos) auto
  have so: "is_sorted_desc ?sc" using s m by auto
  have len: "length (S_path T) = Suc m" "length (parents T) = Suc m"
    using g by (simp_all add: greedy_tables_def)
  have last: "last (S_path T) = map (\<lambda>i. Fin (- top_sum cand_data m - ?sc ! i))
                                   [0..<row_width cand_data cut_off m]"
  proof -
    have "S_path T \<noteq> []" using len by auto
    then have "last (S_path T) = S_path T ! m" using len by (simp add: last_conv_nth)
    then show ?thesis using g by (simp add: greedy_tables_def)
  qed
  have "argmin_list (last (S_path T)) = 0"
  proof (rule argmin_first_min, intro allI impI)
    fix i assume "i < length (last (S_path T))"
    then have i: "i < row_width cand_data cut_off m" using last by simp
    then have "i < length ?sc" using row_width_le(2)[of cand_data cut_off m] by simp
    then have "?sc ! i \<le> ?sc ! 0" using so sorted_desc_nth by blast
    then show "xle (last (S_path T) ! 0) (last (S_path T) ! i)"
      using last i w[OF m] by (simp add: xle_def)
  qed
  then have am: "argmin (last (S_path T)) = Inr 0"
    using last w[OF m] by (simp add: argmin_def)
  have "0 < length cand_data" using m by (cases cand_data) auto
  then have "cand_data ! 0 \<in> set cand_data" by (rule nth_mem)
  then have "iokrscores (cand_data ! 0) \<noteq> []" using s by blast
  then have p0: "parents T ! 0 \<noteq> [] \<and> parents T ! 0 ! 0 = NoParent"
    using g by (simp add: greedy_tables_def)
  have pt: "\<forall>u. 1 \<le> u \<and> u \<le> m \<longrightarrow> parents T ! u \<noteq> [] \<and> parents T ! u ! 0 = Parent 0"
    using g w m by (auto simp: greedy_tables_def)
  have "backtrack (parents T) (int m) [0] = Inr ([0] @ replicate m 0)"
    using len p0 pt by (intro backtrack_zero) auto
  then have bt: "backtrack (parents T) (int (Suc m) - 1) [0] = Inr (replicate (Suc m) 0)"
    by simp
  have "last (S_path T) ! 0 = Fin (- top_sum cand_data (Suc m))"
    using last w[OF m] m by (simp add: top_sum_Suc)
  then show ?thesis using am bt by (simp add: extract_path_def del: replicate_Suc)
qed

lemma sp_check_layer_sec: "sp_check_layer cand_data = sec_check_layer cand_data False"
  by (intro ext) (simp add: sp_check_layer_def sec_check_layer_def)

text \<open>
  C4: with \<open>epsilon_rt = np.inf\<close> every retention-time gap is suppressed, and on
  layers with descending scores \<open>shortest_path\<close> returns in every layer the candidate
  that \<open>np.argmin\<close> of the negated scores picks, the first of the highest score, which
  is candidate \<open>0\<close>; the length of the path is the negated sum of these scores.
\<close>

theorem infinite_epsilon_gives_top_candidates:
  assumes "cand_data \<noteq> []"
      and "\<forall>l \<in> set cand_data. iokrscores l \<noteq> [] \<and> is_sorted_desc (iokrscores l)"
      and "sorted (map rt_cand_list cand_data)"
      and "epsilon_rt kw = PInf"
      and "cut_off \<noteq> Some 0"
  shows "shortest_path cand_data weight_func_max cut_off check_input kw
         = Inr (map (\<lambda>l. argmin_list (map (\<lambda>score. Fin (- score)) (iokrscores l))) cand_data,
                Fin (- sum_list (map (\<lambda>l. iokrscores l ! 0) cand_data)))
       \<and> map (\<lambda>l. argmin_list (map (\<lambda>score. Fin (- score)) (iokrscores l))) cand_data
           = replicate (length cand_data) 0"
proof -
  obtain m where m: "length cand_data = Suc m" using assms(1) by (cases cand_data) auto
  have "map (\<lambda>t. rt_cand_list (cand_data ! t)) [0..<length cand_data] = map rt_cand_list cand_data"
    by (intro nth_equalityI) auto
  then have "\<exists>r. for_each (sec_check_layer cand_data False) [0..<length cand_data] MInf = Inr r"
    using assms(2,3) by (intro sec_check_complete) (auto simp: layer_ok_def)
  then obtain r where chk: "for_each (sp_check_layer cand_data) [0..<length cand_data] MInf = Inr r"
    by (auto simp: sp_check_layer_sec)
  obtain T where T: "for_each (sp_layer_step cand_data weight_func_max cut_off kw) [0..<m]
                (first_tables cand_data) = Inr T" "greedy_tables cand_data cut_off m T"
    using greedy_forward[of m cand_data kw cut_off] assms m by auto
  have ex: "extract_path T (Suc m) = Inr (replicate (Suc m) 0, Fin (- top_sum cand_data (Suc m)))"
    using greedy_extract[OF T(2)] m assms by simp
  have ts: "top_sum cand_data (Suc m) = sum_list (map (\<lambda>l. iokrscores l ! 0) cand_data)"
    using m by (simp add: top_sum_def)
  have gr: "map (\<lambda>l. argmin_list (map (\<lambda>score. Fin (- score)) (iokrscores l))) cand_data
           = replicate (length cand_data) 0"
    using assms(2) by (simp add: map_replicate_const[symmetric] argmin_neg_sorted cong: map_cong)
  have "shortest_path cand_data weight_func_max cut_off check_input kw
         = Inr (replicate (length cand_data) 0, Fin (- sum_list (map (\<lambda>l. iokrscores l ! 0) cand_data)))"
    using chk T(1) ex ts m assms(1)
    by (cases check_input) (simp_all add: shortest_path_def Let_def del: replicate_Suc)
  then show ?thesis using gr by simp
qed

theorem infinite_epsilon_gives_top_candidates_witness:
  "shortest_path [scenario_layer0, scenario_layer1] weight_func_max None True infinite_kwargs
     = Inr ([0, 0], Fin (- 1.7))"
  using infinite_epsilon_gives_top_candidates
          [of "[scenario_layer0, scenario_layer1]" infinite_kwargs None True]
  by (simp add: scenario_layer0_def scenario_layer1_def infinite_kwargs_def)

section \<open>The choice among paths of equal length\<close>

lemma xle_refl [simp]: "xle a a"
  by (cases a) (auto simp: xle_def)

lemma xless_imp_xle: "xless a b \<Longrightarrow> xle a b"
  by (cases a; cases b) (auto simp: xle_def)

lemma xle_trans: "xle a b \<Longrightarrow> xle b c \<Longrightarrow> xle a c"
  by (cases a; cases b; cases c) (auto simp: xle_def)

lemma xless_xle_trans: "xless a b \<Longrightarrow> xle b c \<Longrightarrow> xless a c"
  by (cases a; cases b; cases c) (auto simp: xle_def)

lemma xle_xless_trans: "xle a b \<Longrightarrow> xless b c \<Longrightarrow> xless a c"
  by (cases a; cases b; cases c) (auto simp: xle_def)

lemma not_xless_iff: "\<not> xless a b \<longleftrightarrow> xle b a"
  by (simp add: xle_def)

lemma argmin_list_first:
  "xs \<noteq> [] \<Longrightarrow> j < length xs \<Longrightarrow>
     xle (xs ! argmin_list xs) (xs ! j) \<and> (j < argmin_list xs \<longrightarrow> xless (xs ! argmin_list xs) (xs ! j))"
proof (induction xs arbitrary: j rule: argmin_list.induct)
  case 1
  then show ?case by simp
next
  case (2 x)
  then show ?case by simp
next
  case (3 x y ys)
  let ?k = "argmin_list (y # ys)"
  have ih: "\<And>j. j < length (y # ys) \<Longrightarrow>
     xle ((y # ys) ! ?k) ((y # ys) ! j) \<and> (j < ?k \<longrightarrow> xless ((y # ys) ! ?k) ((y # ys) ! j))"
    using 3 by simp
  show ?case
  proof (cases "xle x ((y # ys) ! ?k)")
    case True
    then have k0: "argmin_list (x # y # ys) = 0" by (simp add: Let_def)
    show ?thesis
    proof (cases j)
      case 0
      then show ?thesis using k0 by simp
    next
      case (Suc j')
      then have "xle ((y # ys) ! ?k) ((y # ys) ! j')" using ih[of j'] "3.prems" by simp
      then show ?thesis using True k0 Suc by (auto intro: xle_trans)
    qed
  next
    case False
    then have ks: "argmin_list (x # y # ys) = Suc ?k" by (simp add: Let_def)
    from False have lt: "xless ((y # ys) ! ?k) x" by (simp add: xle_def)
    show ?thesis
    proof (cases j)
      case 0
      then show ?thesis using ks lt by (auto intro: xless_imp_xle)
    next
      case (Suc j')
      then show ?thesis using ih[of j'] "3.prems" ks by simp
    qed
  qed
qed


lemma sec_tail_loop:
  assumes "for_each (sec_tail_step cand_data weight_fun excl kw t i s dw) js r = Inr r'"
  shows "r' = fold (\<lambda>j. relax s dw i j
                       (fst (projr (weight_fun cand_data (t, i) (t + 1, j) kw)),
                        snd (projr (weight_fun cand_data (t, i) (t + 1, j) kw))))
                (filter (unblocked cand_data excl (t + 1)) js) r
       \<and> (\<forall>j \<in> set js. unblocked cand_data excl (t + 1) j \<longrightarrow>
             (\<exists>w d. weight_fun cand_data (t, i) (t + 1, j) kw = Inr (w, d)))"
  using assms
proof (induction js arbitrary: r)
  case Nil
  then show ?case by simp
next
  case (Cons j js)
  from Cons.prems obtain r1 where
    1: "sec_tail_step cand_data weight_fun excl kw t i s dw j r = Inr r1"
    and 2: "for_each (sec_tail_step cand_data weight_fun excl kw t i s dw) js r1 = Inr r'"
    by (auto split: sum.splits)
  note ih = Cons.IH[OF 2]
  show ?case
  proof (cases "unblocked cand_data excl (t + 1) j")
    case True
    then obtain w d where w: "weight_fun cand_data (t, i) (t + 1, j) kw = Inr (w, d)"
      and r1: "r1 = relax s dw i j (w, d) r"
      using 1 by (auto simp: sec_tail_step_def unblocked_def split: sum.splits if_splits)
    show ?thesis using ih True w r1 by auto
  next
    case False
    then have "r1 = r"
      using 1 by (auto simp: sec_tail_step_def unblocked_def split: sum.splits if_splits)
    then show ?thesis using ih False by auto
  qed
qed

lemma sec_head_cases:
  assumes "sec_head_step cand_data weight_fun excl kw t n S_t dW_t k r = Inr r'"
  shows "(\<not> unblocked cand_data excl t k \<and> r' = r)
       \<or> (unblocked cand_data excl t k
          \<and> for_each (sec_tail_step cand_data weight_fun excl kw t k (S_t ! k) (dW_t ! k))
               [0..<n] r = Inr r')"
  using assms by (auto simp: sec_head_step_def unblocked_def split: sum.splits if_splits)

lemma head_col:
  assumes h: "sec_head_step cand_data weight_fun excl kw t n S_t dW_t k r = Inr r'"
      and l: "length (fst r) = n" "length (snd (snd r)) = n" and j: "j < n"
      and inv: "col_inv cand_data weight_fun excl kw S_t t k (fst r) (snd (snd r)) j"
  shows "col_inv cand_data weight_fun excl kw S_t t (Suc k) (fst r') (snd (snd r')) j"
proof -
  let ?S = "fst r" and ?P = "snd (snd r)"
  let ?ub = "unblocked cand_data excl"
  let ?ec = "edge_cost cand_data weight_fun kw S_t t"
  have i1: "?ub (t + 1) j \<Longrightarrow> i' < k \<Longrightarrow> ?ub t i' \<Longrightarrow> \<exists>c. ?ec i' j c \<and> xle (?S ! j) c" for i'
    using inv unfolding col_inv_def by blast
  have i2: "?P ! j = Parent i \<Longrightarrow> ?ub (t + 1) j \<and> i < k \<and> ?ub t i \<and> ?ec i j (?S ! j)
              \<and> (\<forall>i' < i. ?ub t i' \<longrightarrow> (\<exists>c. ?ec i' j c \<and> xless (?S ! j) c))" for i
    using inv unfolding col_inv_def by blast
  have i3: "?P ! j \<noteq> NoParent" using inv unfolding col_inv_def by blast
  consider (skip) "\<not> ?ub t k" "r' = r"
    | (run) "?ub t k"
        "for_each (sec_tail_step cand_data weight_fun excl kw t k (S_t ! k) (dW_t ! k))
               [0..<n] r = Inr r'"
    using sec_head_cases[OF h] by blast
  then show ?thesis
  proof cases
    case skip
    show ?thesis
      unfolding col_inv_def skip(2)
    proof (intro conjI allI impI)
      fix i' assume "?ub (t + 1) j" "i' < Suc k" "?ub t i'"
      then have "i' < k" using skip(1) by (cases "i' = k") auto
      then show "\<exists>c. ?ec i' j c \<and> xle (?S ! j) c"
        using i1 \<open>?ub (t + 1) j\<close> \<open>?ub t i'\<close> by blast
    qed (use i2 i3 in \<open>auto simp: less_Suc_eq\<close>)
  next
    case run
    let ?W = "\<lambda>j. projr (weight_fun cand_data (t, k) (t + 1, j) kw)"
    let ?js = "filter (?ub (t + 1)) [0..<n]"
    from sec_tail_loop[OF run(2)] have
      r': "r' = fold (\<lambda>j. relax (S_t ! k) (dW_t ! k) k j (fst (?W j), snd (?W j))) ?js r"
      and wdef: "\<And>j. j < n \<Longrightarrow> ?ub (t + 1) j \<Longrightarrow>
                  \<exists>w d. weight_fun cand_data (t, k) (t + 1, j) kw = Inr (w, d)"
      by auto
    have nth: "fst r' ! j = (if j \<in> set ?js \<and> xless (xadd (S_t ! k) (fst (?W j))) (?S ! j)
                              then xadd (S_t ! k) (fst (?W j)) else ?S ! j)
             \<and> snd (snd r') ! j = (if j \<in> set ?js \<and> xless (xadd (S_t ! k) (fst (?W j))) (?S ! j)
                              then Parent k else ?P ! j)"
      unfolding r' using l j
      by (intro fold_relax_nth[where w = "\<lambda>j. fst (?W j)" and d = "\<lambda>j. snd (?W j)"]) auto
    show ?thesis
    proof (cases "?ub (t + 1) j")
      case False
      then have "fst r' ! j = ?S ! j" "snd (snd r') ! j = ?P ! j" using nth by auto
      then show ?thesis
        unfolding col_inv_def using False i2 i3 by auto
    next
      case True
      then obtain w d where w: "weight_fun cand_data (t, k) (t + 1, j) kw = Inr (w, d)"
        using wdef j by blast
      let ?c = "xadd (S_t ! k) w"
      have eck: "?ec k j ?c" using w by (auto simp: edge_cost_def)
      have mem: "j \<in> set ?js" using True j by simp
      have W: "fst (?W j) = w" using w by simp
      show ?thesis
      proof (cases "xless ?c (?S ! j)")
        case lt: True
        have S': "fst r' ! j = ?c" and P': "snd (snd r') ! j = Parent k"
          using nth mem W lt by auto
        show ?thesis
          unfolding col_inv_def S' P'
        proof (intro conjI allI impI)
          fix i' assume a: "i' < Suc k" "?ub t i'"
          show "\<exists>c. ?ec i' j c \<and> xle ?c c"
          proof (cases "i' = k")
            case True
            then show ?thesis using eck by auto
          next
            case False
            then have "i' < k" using a by simp
            then obtain c where "?ec i' j c" "xle (?S ! j) c" using i1 a True by blast
            then show ?thesis using lt xless_imp_xle xle_trans by blast
          qed
        next
          fix i i' assume a: "Parent k = Parent i" "i' < i" "?ub t i'"
          then have "i' < k" by simp
          then obtain c where "?ec i' j c" "xle (?S ! j) c" using i1 a True by blast
          then show "\<exists>c. ?ec i' j c \<and> xless ?c c" using lt xless_xle_trans by blast
        qed (use True run(1) eck in auto)
      next
        case ge: False
        have S': "fst r' ! j = ?S ! j" and P': "snd (snd r') ! j = ?P ! j"
          using nth ge W by auto
        show ?thesis
          unfolding col_inv_def S' P'
        proof (intro conjI allI impI)
          fix i' assume a: "i' < Suc k" "?ub t i'"
          show "\<exists>c. ?ec i' j c \<and> xle (?S ! j) c"
          proof (cases "i' = k")
            case True
            then show ?thesis using eck ge by (auto simp: xle_def)
          next
            case False
            then have "i' < k" using a by simp
            then show ?thesis using i1 a \<open>?ub (t + 1) j\<close> by blast
          qed
        qed (use i2 i3 in \<open>auto simp: less_Suc_eq\<close>)
      qed
    qed
  qed
qed

lemma fold_relax_length_gen:
  "length (fst (fold (\<lambda>j. relax s dw i j (upd j)) js r)) = length (fst r)
   \<and> length (snd (snd (fold (\<lambda>j. relax s dw i j (upd j)) js r))) = length (snd (snd r))"
  using fold_relax_length[of s dw i "\<lambda>j. fst (upd j)" "\<lambda>j. snd (upd j)" js r] by simp

lemma head_length:
  assumes "sec_head_step cand_data weight_fun excl kw t n S_t dW_t k r = Inr r'"
  shows "length (fst r') = length (fst r) \<and> length (snd (snd r')) = length (snd (snd r))"
proof -
  consider "r' = r"
    | "for_each (sec_tail_step cand_data weight_fun excl kw t k (S_t ! k) (dW_t ! k))
               [0..<n] r = Inr r'"
    using sec_head_cases[OF assms] by blast
  then show ?thesis
  proof cases
    case 1
    then show ?thesis by simp
  next
    case 2
    show ?thesis
      using sec_tail_loop[OF 2] by (simp add: fold_relax_length_gen)
  qed
qed


lemma head_loop_inv:
  assumes "for_each (sec_head_step cand_data weight_fun excl kw t n S_t dW_t) [0..<k] (new_row n)
             = Inr r'"
  shows "length (fst r') = n \<and> length (snd (snd r')) = n
         \<and> (\<forall>j < n. col_inv cand_data weight_fun excl kw S_t t k (fst r') (snd (snd r')) j)"
  using assms
proof (induction k arbitrary: r')
  case 0
  then show ?case by (auto simp: new_row_def col_inv_def)
next
  case (Suc k)
  from Suc.prems obtain r1 where
    1: "for_each (sec_head_step cand_data weight_fun excl kw t n S_t dW_t) [0..<k] (new_row n)
          = Inr r1"
    and 2: "sec_head_step cand_data weight_fun excl kw t n S_t dW_t k r1 = Inr r'"
    by (auto simp: for_each_append split: sum.splits)
  from Suc.IH[OF 1] have l: "length (fst r1) = n" "length (snd (snd r1)) = n"
    and inv: "\<And>j. j < n \<Longrightarrow> col_inv cand_data weight_fun excl kw S_t t k (fst r1) (snd (snd r1)) j"
    by auto
  show ?case using head_length[OF 2] l head_col[OF 2 l _ inv] by auto
qed

lemma layer_inv:
  assumes step: "sec_layer_step cand_data weight_fun cut_off excl kw m T = Inr T'"
      and inv: "tables_inv cand_data weight_fun cut_off excl kw m T"
  shows "tables_inv cand_data weight_fun cut_off excl kw (Suc m) T'"
proof -
  let ?n = "n_cand (length (iokrscores (cand_data ! m))) cut_off"
  let ?n' = "n_cand (length (iokrscores (cand_data ! Suc m))) cut_off"
  from step obtain r where
    loop: "for_each (sec_head_step cand_data weight_fun excl kw m ?n' (S_path T ! m)
                       (dW_path T ! m)) [0..<?n] (new_row ?n') = Inr r"
    and T': "T' = append_row T r"
    by (auto simp: sec_layer_step_def Let_def split: sum.splits)
  from head_loop_inv[OF loop] have
    l: "length (fst r) = ?n'" "length (snd (snd r)) = ?n'"
    and c: "\<And>j. j < ?n' \<Longrightarrow>
              col_inv cand_data weight_fun excl kw (S_path T ! m) m ?n (fst r) (snd (snd r)) j"
    by auto
  have len: "length (S_path T) = Suc m" "length (parents T) = Suc m" "length (dW_path T) = Suc m"
    using inv by (simp_all add: tables_inv_def)
  have S': "S_path T' = S_path T @ [fst r]" and P': "parents T' = parents T @ [snd (snd r)]"
    and W': "dW_path T' = dW_path T @ [fst (snd r)]"
    using T' by (simp_all add: append_row_def split: prod.splits)
  show ?thesis
    unfolding tables_inv_def
  proof (intro conjI allI impI)
    fix t assume t: "t < Suc m"
    show "length (S_path T' ! Suc t) = n_cand (length (iokrscores (cand_data ! Suc t))) cut_off"
      using t len l inv by (cases "t = m") (auto simp: S' nth_append tables_inv_def)
    show "length (parents T' ! Suc t) = n_cand (length (iokrscores (cand_data ! Suc t))) cut_off"
      using t len l inv by (cases "t = m") (auto simp: P' nth_append tables_inv_def)
    fix j assume j: "j < n_cand (length (iokrscores (cand_data ! Suc t))) cut_off"
    show "col_inv cand_data weight_fun excl kw (S_path T' ! t) t
            (n_cand (length (iokrscores (cand_data ! t))) cut_off)
            (S_path T' ! Suc t) (parents T' ! Suc t) j"
    proof (cases "t = m")
      case True
      then show ?thesis using c[of j] j len by (simp add: S' P' nth_append)
    next
      case False
      then have "t < m" using t by simp
      then show ?thesis using inv j len by (simp add: S' P' nth_append tables_inv_def)
    qed
  qed (use len inv in \<open>simp_all add: S' P' W' nth_append tables_inv_def\<close>)
qed

lemma forward_inv:
  assumes "for_each (sec_layer_step cand_data weight_fun cut_off excl kw) [0..<m]
             (first_tables cand_data) = Inr T"
  shows "tables_inv cand_data weight_fun cut_off excl kw m T"
  using assms
proof (induction m arbitrary: T)
  case 0
  then show ?case by (auto simp: tables_inv_def)
next
  case (Suc m)
  then obtain T1 where
    1: "for_each (sec_layer_step cand_data weight_fun cut_off excl kw) [0..<m]
          (first_tables cand_data) = Inr T1"
    and 2: "sec_layer_step cand_data weight_fun cut_off excl kw m T1 = Inr T"
    by (auto simp: for_each_append split: sum.splits)
  show ?case using layer_inv[OF 2 Suc.IH[OF 1]] .
qed

lemma backtrack_chain:
  assumes "backtrack P (int t) nodes = Inr res" and "t < length P" and "nodes \<noteq> []"
      and "\<forall>u. 1 \<le> u \<and> u \<le> t \<longrightarrow> NoParent \<notin> set (P ! u)"
      and "set (P ! 0) \<subseteq> {NoParent}"
  shows "\<exists>ps. res = nodes @ ps \<and> length ps = t
           \<and> (\<forall>q < t. (last nodes # ps) ! q < length (P ! (t - q))
                 \<and> P ! (t - q) ! ((last nodes # ps) ! q) = Parent ((last nodes # ps) ! Suc q))"
  using assms
proof (induction t arbitrary: nodes)
  case 0
  have row: "py_index P (int 0) = Inr (P ! 0)"
    using "0.prems"(2) by (rule py_index_nat)
  have e: "(case py_get (P ! 0) (last nodes) of Inl e \<Rightarrow> Inl e | Inr par \<Rightarrow>
             (case par of NoParent \<Rightarrow> Inr nodes
              | Unset \<Rightarrow> (case py_index P (int 0 - 1) of Inl e \<Rightarrow> Inl e
                          | Inr _ \<Rightarrow> Inl TypeError)
              | Parent p \<Rightarrow> backtrack P (int 0 - 1) (nodes @ [p]))) = Inr res"
    using "0.prems"(1) unfolding backtrack.simps[of P "int 0" nodes] row by simp
  then have inr: "last nodes < length (P ! 0)"
    by (auto simp: py_get_def split: if_splits)
  then have "P ! 0 ! last nodes \<in> set (P ! 0)" by simp
  then have "P ! 0 ! last nodes = NoParent" using "0.prems"(5) by blast
  then have "res = nodes" using e inr by (simp add: py_get_def)
  then show ?case by simp
next
  case (Suc t)
  have row: "py_index P (int (Suc t)) = Inr (P ! Suc t)"
    using Suc.prems(2) by (rule py_index_nat)
  have m1: "int (Suc t) - 1 = int t" by simp
  have e: "(case py_get (P ! Suc t) (last nodes) of Inl e \<Rightarrow> Inl e | Inr par \<Rightarrow>
             (case par of NoParent \<Rightarrow> Inr nodes
              | Unset \<Rightarrow> (case py_index P (int t) of Inl e \<Rightarrow> Inl e | Inr _ \<Rightarrow> Inl TypeError)
              | Parent p \<Rightarrow> backtrack P (int t) (nodes @ [p]))) = Inr res"
    using Suc.prems(1) unfolding backtrack.simps[of P "int (Suc t)" nodes] row m1 by simp
  then have inr: "last nodes < length (P ! Suc t)"
    by (auto simp: py_get_def split: if_splits)
  then have "P ! Suc t ! last nodes \<in> set (P ! Suc t)" by simp
  then have nn: "P ! Suc t ! last nodes \<noteq> NoParent" using Suc.prems(4) by force
  from e inr nn obtain p where p: "P ! Suc t ! last nodes = Parent p"
    and rec: "backtrack P (int t) (nodes @ [p]) = Inr res"
    by (auto simp: py_get_def split: parent.splits sum.splits)
  from Suc.IH[OF rec] Suc.prems obtain ps where
    ps: "res = (nodes @ [p]) @ ps" "length ps = t"
    and ch: "\<And>q. q < t \<Longrightarrow> (p # ps) ! q < length (P ! (t - q))
                 \<and> P ! (t - q) ! ((p # ps) ! q) = Parent ((p # ps) ! Suc q)"
    by auto
  show ?case
  proof (intro exI[of _ "p # ps"] conjI allI impI)
    fix q assume q: "q < Suc t"
    show "(last nodes # p # ps) ! q < length (P ! (Suc t - q))"
      using q inr ch[of "q - 1"] by (cases q) auto
    show "P ! (Suc t - q) ! ((last nodes # p # ps) ! q) = Parent ((last nodes # p # ps) ! Suc q)"
      using q p ch[of "q - 1"] by (cases q) auto
  qed (use ps in auto)
qed


lemma edge_cost_unique:
  "edge_cost cand_data weight_fun kw S_t t i j c \<Longrightarrow>
   edge_cost cand_data weight_fun kw S_t t i j c' \<Longrightarrow> c = c'"
  by (auto simp: edge_cost_def)

lemma col_inv_parent:
  assumes inv: "col_inv cand_data weight_fun excl kw S_t t n S P j" and p: "P ! j = Parent i"
  shows "i < n \<and> unblocked cand_data excl t i \<and> unblocked cand_data excl (Suc t) j
         \<and> edge_cost cand_data weight_fun kw S_t t i j (S ! j)
         \<and> (\<forall>i' < n. unblocked cand_data excl t i' \<longrightarrow>
               (\<exists>c. edge_cost cand_data weight_fun kw S_t t i' j c \<and> xle (S ! j) c
                    \<and> (i' < i \<longrightarrow> xless (S ! j) c)))"
proof -
  let ?ub = "unblocked cand_data excl"
  let ?ec = "edge_cost cand_data weight_fun kw S_t t"
  have a: "?ub (Suc t) j" "i < n" "?ub t i" "?ec i j (S ! j)"
    and lt: "\<And>i'. i' < i \<Longrightarrow> ?ub t i' \<Longrightarrow> \<exists>c. ?ec i' j c \<and> xless (S ! j) c"
    using inv p unfolding col_inv_def by auto
  have le: "\<And>i'. i' < n \<Longrightarrow> ?ub t i' \<Longrightarrow> \<exists>c. ?ec i' j c \<and> xle (S ! j) c"
    using inv a(1) unfolding col_inv_def by auto
  have "\<exists>c. ?ec i' j c \<and> xle (S ! j) c \<and> (i' < i \<longrightarrow> xless (S ! j) c)"
    if h: "i' < n" "?ub t i'" for i'
  proof -
    obtain c where c: "?ec i' j c" "xle (S ! j) c" using le h by blast
    show ?thesis
    proof (cases "i' < i")
      case True
      then obtain c' where "?ec i' j c'" "xless (S ! j) c'" using lt h by blast
      then show ?thesis using c edge_cost_unique by blast
    next
      case False
      then show ?thesis using c by blast
    qed
  qed
  then show ?thesis using a by blast
qed

lemma solver_tables:
  assumes res: "shortest_path_exclude_candidates cand_data weight_fun cut_off check_input excl kw
                  = Inr (path, cost)"
  shows "\<exists>T. sec_forward cand_data weight_fun cut_off excl kw = Inr T
     \<and> length path = length cand_data \<and> path \<noteq> []
     \<and> last path < length (last (S_path T)) \<and> cost = last (S_path T) ! last path
     \<and> (\<forall>j < length (last (S_path T)).
           xle cost (last (S_path T) ! j)
           \<and> (j < last path \<longrightarrow> xless cost (last (S_path T) ! j)))
     \<and> (\<forall>t. Suc t < length cand_data \<longrightarrow>
           path ! Suc t < length (parents T ! Suc t)
           \<and> parents T ! Suc t ! (path ! Suc t) = Parent (path ! t))
     \<and> (\<forall>t j i. Suc t < length cand_data \<and> j < length (parents T ! Suc t)
               \<and> parents T ! Suc t ! j = Parent i \<longrightarrow>
           i < n_cand (length (iokrscores (cand_data ! t))) cut_off
           \<and> unblocked cand_data excl t i \<and> unblocked cand_data excl (Suc t) j
           \<and> edge_cost cand_data weight_fun kw (S_path T ! t) t i j (S_path T ! Suc t ! j)
           \<and> (\<forall>i' < n_cand (length (iokrscores (cand_data ! t))) cut_off.
                 unblocked cand_data excl t i' \<longrightarrow>
                 (\<exists>c. edge_cost cand_data weight_fun kw (S_path T ! t) t i' j c
                      \<and> xle (S_path T ! Suc t ! j) c
                      \<and> (i' < i \<longrightarrow> xless (S_path T ! Suc t ! j) c))))"
proof -
  from res have ne: "cand_data \<noteq> []"
    by (auto simp: shortest_path_exclude_candidates_def Let_def split: sum.splits if_splits)
  from res ne obtain T where
    fw: "sec_forward cand_data weight_fun cut_off excl kw = Inr T"
    and ex: "extract_path T (length cand_data) = Inr (path, cost)"
    by (auto simp: shortest_path_exclude_candidates_def Let_def split: sum.splits if_splits)
  obtain m where m: "length cand_data = Suc m" using ne by (cases cand_data) auto
  have inv: "tables_inv cand_data weight_fun cut_off excl kw m T"
    using fw m by (intro forward_inv) (simp add: sec_forward_def)
  let ?L = "last (S_path T)" and ?P = "parents T"
  have len: "length (S_path T) = Suc m" "length ?P = Suc m"
    using inv by (simp_all add: tables_inv_def)
  from ex obtain nodes where
    Lne: "?L \<noteq> []" and cost: "cost = ?L ! argmin_list ?L"
    and bt: "backtrack ?P (int (Suc m) - 1) [argmin_list ?L] = Inr nodes"
    and path: "path = rev nodes"
    using m by (auto simp: extract_path_def argmin_def Let_def split: sum.splits if_splits)
  let ?k = "argmin_list ?L"
  have cols: "col_inv cand_data weight_fun excl kw (S_path T ! t) t
                (n_cand (length (iokrscores (cand_data ! t))) cut_off)
                (S_path T ! Suc t) (?P ! Suc t) j"
    if "t < m" "j < length (?P ! Suc t)" for t j
    using inv that unfolding tables_inv_def by auto
  have nop: "\<forall>u. 1 \<le> u \<and> u \<le> m \<longrightarrow> NoParent \<notin> set (?P ! u)"
  proof (intro allI impI notI)
    fix u assume u: "1 \<le> u \<and> u \<le> m" and "NoParent \<in> set (?P ! u)"
    then obtain j where j: "j < length (?P ! u)" "?P ! u ! j = NoParent"
      by (auto simp: in_set_conv_nth)
    obtain t where t: "u = Suc t" "t < m" using u by (cases u) auto
    show False using cols[OF t(2), of j] j t unfolding col_inv_def by simp
  qed
  have p0: "set (?P ! 0) \<subseteq> {NoParent}" using inv by (auto simp: tables_inv_def)
  have "int (Suc m) - 1 = int m" by simp
  then have bt': "backtrack ?P (int m) [?k] = Inr nodes" using bt by simp
  from backtrack_chain[OF bt' _ _ nop p0] len obtain ps where
    nodes: "nodes = [?k] @ ps" and lps: "length ps = m"
    and ch: "\<And>q. q < m \<Longrightarrow> (?k # ps) ! q < length (?P ! (m - q))
                 \<and> ?P ! (m - q) ! ((?k # ps) ! q) = Parent ((?k # ps) ! Suc q)"
    by auto
  have plen: "length path = Suc m" using path nodes lps by simp
  have lastp: "last path = ?k" using path nodes by simp
  have pnth: "path ! u = (?k # ps) ! (m - u)" if "u \<le> m" for u
  proof -
    have "rev (?k # ps) ! u = (?k # ps) ! (length (?k # ps) - Suc u)"
      using that lps by (intro rev_nth) simp
    then show ?thesis using path nodes lps by simp
  qed
  have follows: "path ! Suc t < length (?P ! Suc t)
           \<and> ?P ! Suc t ! (path ! Suc t) = Parent (path ! t)" if "Suc t < length cand_data" for t
  proof -
    have t: "t < m" using that m by simp
    let ?q = "m - Suc t"
    have q: "?q < m" "m - ?q = Suc t" "Suc ?q = m - t" using t by auto
    show ?thesis using ch[OF q(1)] q(2,3) pnth[of "Suc t"] pnth[of t] t by simp
  qed
  have terminal: "xle cost (?L ! j) \<and> (j < last path \<longrightarrow> xless cost (?L ! j))" if "j < length ?L" for j
    using argmin_list_first[OF Lne that] cost lastp by simp
  have pred: "i < n_cand (length (iokrscores (cand_data ! t))) cut_off
           \<and> unblocked cand_data excl t i \<and> unblocked cand_data excl (Suc t) j
           \<and> edge_cost cand_data weight_fun kw (S_path T ! t) t i j (S_path T ! Suc t ! j)
           \<and> (\<forall>i' < n_cand (length (iokrscores (cand_data ! t))) cut_off.
                 unblocked cand_data excl t i' \<longrightarrow>
                 (\<exists>c. edge_cost cand_data weight_fun kw (S_path T ! t) t i' j c
                      \<and> xle (S_path T ! Suc t ! j) c
                      \<and> (i' < i \<longrightarrow> xless (S_path T ! Suc t ! j) c)))"
    if "Suc t < length cand_data \<and> j < length (?P ! Suc t) \<and> ?P ! Suc t ! j = Parent i" for t j i
  proof -
    have t: "t < m" using that m by simp
    show ?thesis using col_inv_parent[OF cols[OF t, of j]] that by blast
  qed
  have "length path = length cand_data" "path \<noteq> []" "last path < length ?L"
       "cost = ?L ! last path"
    using plen m lastp cost argmin_list_less[OF Lne] by auto
  then show ?thesis using fw follows terminal pred by blast
qed

text \<open>
  With two or more layers, a path that the solver returns has no blocked node: every node
  has a parent or is one.
\<close>

lemma several_layers_path_unblocked:
  assumes res: "shortest_path_exclude_candidates cand_data weight_fun cut_off check_input excl kw
                  = Inr (path, cost)"
      and two: "2 \<le> length cand_data" and t: "t < length cand_data"
  shows "unblocked cand_data excl t (path ! t)"
  using solver_tables[OF res]
proof (elim exE conjE)
  fix T
  assume follows: "\<forall>t. Suc t < length cand_data \<longrightarrow>
           path ! Suc t < length (parents T ! Suc t)
           \<and> parents T ! Suc t ! (path ! Suc t) = Parent (path ! t)"
    and pred: "\<forall>t j i. Suc t < length cand_data \<and> j < length (parents T ! Suc t)
               \<and> parents T ! Suc t ! j = Parent i \<longrightarrow>
           i < n_cand (length (iokrscores (cand_data ! t))) cut_off
           \<and> unblocked cand_data excl t i \<and> unblocked cand_data excl (Suc t) j
           \<and> edge_cost cand_data weight_fun kw (S_path T ! t) t i j (S_path T ! Suc t ! j)
           \<and> (\<forall>i' < n_cand (length (iokrscores (cand_data ! t))) cut_off.
                 unblocked cand_data excl t i' \<longrightarrow>
                 (\<exists>c. edge_cost cand_data weight_fun kw (S_path T ! t) t i' j c
                      \<and> xle (S_path T ! Suc t ! j) c
                      \<and> (i' < i \<longrightarrow> xless (S_path T ! Suc t ! j) c)))"
  have step: "unblocked cand_data excl u (path ! u)
              \<and> unblocked cand_data excl (Suc u) (path ! Suc u)"
    if u: "Suc u < length cand_data" for u
  proof -
    have "path ! Suc u < length (parents T ! Suc u)"
         "parents T ! Suc u ! (path ! Suc u) = Parent (path ! u)"
      using follows u by simp_all
    then show ?thesis using pred u by simp
  qed
  show ?thesis
  proof (cases t)
    case 0
    have "Suc 0 < length cand_data" using two by simp
    then show ?thesis using step[of 0] 0 by simp
  next
    case (Suc u)
    then have "Suc u < length cand_data" using t by simp
    then show ?thesis using step[of u] Suc by simp
  qed
qed

text \<open>
  C7: the solver is a function of the layers with their blocked flags and of the
  configuration, and its choices among equal lengths are fixed. When it returns a path,
  the last node of the path is the first node of the last layer with the smallest length;
  every node of the path has as its parent the node before it; and the parent of a node is
  an unblocked node of the layer before, within the cut-off, through which the node gets
  its length, every unblocked node within the cut-off giving a path that is not shorter,
  and every one with a smaller index a path that is strictly longer.
\<close>

theorem lowest_index_wins:
  assumes res: "shortest_path_exclude_candidates cand_data weight_fun cut_off check_input excl kw
                  = Inr (path, cost)"
  shows "\<exists>T. sec_forward cand_data weight_fun cut_off excl kw = Inr T
     \<and> length path = length cand_data \<and> path \<noteq> []
     \<and> last path < length (last (S_path T)) \<and> cost = last (S_path T) ! last path
     \<and> (\<forall>j < length (last (S_path T)).
           xle cost (last (S_path T) ! j)
           \<and> (j < last path \<longrightarrow> xless cost (last (S_path T) ! j)))
     \<and> (\<forall>t. Suc t < length cand_data \<longrightarrow>
           path ! Suc t < length (parents T ! Suc t)
           \<and> parents T ! Suc t ! (path ! Suc t) = Parent (path ! t))
     \<and> (\<forall>t j i. Suc t < length cand_data \<and> j < length (parents T ! Suc t)
               \<and> parents T ! Suc t ! j = Parent i \<longrightarrow>
           i < n_cand (length (iokrscores (cand_data ! t))) cut_off
           \<and> unblocked cand_data excl t i \<and> unblocked cand_data excl (Suc t) j
           \<and> edge_cost cand_data weight_fun kw (S_path T ! t) t i j (S_path T ! Suc t ! j)
           \<and> (\<forall>i' < n_cand (length (iokrscores (cand_data ! t))) cut_off.
                 unblocked cand_data excl t i' \<longrightarrow>
                 (\<exists>c. edge_cost cand_data weight_fun kw (S_path T ! t) t i' j c
                      \<and> xle (S_path T ! Suc t ! j) c
                      \<and> (i' < i \<longrightarrow> xless (S_path T ! Suc t ! j) c))))"
  using solver_tables[OF res] .

theorem lowest_index_wins_witness:
  "shortest_path_exclude_candidates [tie_layer0, tie_layer1] weight_func_max None True True
     scenario_kwargs = Inr ([0, 0], Fin (- 1))
   \<and> (\<exists>T. sec_forward [tie_layer0, tie_layer1] weight_func_max None True scenario_kwargs = Inr T
          \<and> last (S_path T) ! 0 = last (S_path T) ! 1
          \<and> parents T ! Suc 0 ! ([0, 0] ! Suc 0) = Parent ([0, 0 :: nat] ! 0))"
proof -
  have e: "shortest_path_exclude_candidates [tie_layer0, tie_layer1] weight_func_max None True
             True scenario_kwargs = Inr ([0, 0], Fin (- 1))"
    by (simp add: shortest_path_exclude_candidates_def solver_defs tie_layer0_def tie_layer1_def
          scenario_kwargs_def)
  have f: "sec_forward [tie_layer0, tie_layer1] weight_func_max None True scenario_kwargs
             = Inr \<lparr>S_path = [[Fin (- 0.5), Fin (- 0.5)], [Fin (- 1), Fin (- 1)]],
                    dW_path = [[Fin 0, Fin 0], [Fin (- 1), Fin (- 1)]],
                    parents = [[NoParent, NoParent], [Parent 0, Parent 0]]\<rparr>"
    by (simp add: solver_defs tie_layer0_def tie_layer1_def scenario_kwargs_def)
  from lowest_index_wins[OF e] obtain T where
    T: "sec_forward [tie_layer0, tie_layer1] weight_func_max None True scenario_kwargs = Inr T"
    and p: "\<forall>t. Suc t < length [tie_layer0, tie_layer1] \<longrightarrow>
           parents T ! Suc t ! ([0, 0] ! Suc t) = Parent ([0, 0 :: nat] ! t)"
    by blast
  have "last (S_path T) ! 0 = last (S_path T) ! 1" using T f by auto
  moreover have "parents T ! Suc 0 ! ([0, 0] ! Suc 0) = Parent ([0, 0 :: nat] ! 0)"
    using p by simp
  ultimately show ?thesis using e T by blast
qed

section \<open>The reranking and the layers of the caller\<close>

lemma index_of_less: "a \<in> set xs \<Longrightarrow> index_of xs a < length xs"
  by (induction xs) auto

lemma update_shift: "(pre @ loc)[length pre + r := v] = pre @ loc[r := v]"
  by (simp add: list_update_append)

lemma for_each_shift:
  assumes "\<And>x s. x \<in> set xs \<Longrightarrow> I s \<Longrightarrow> body' x (g s) = map_sum f g (body x s)"
      and "\<And>x s s'. x \<in> set xs \<Longrightarrow> I s \<Longrightarrow> body x s = Inr s' \<Longrightarrow> I s'"
      and "I s"
  shows "for_each body' xs (g s) = map_sum f g (for_each body xs s)"
  using assms
proof (induction xs arbitrary: s)
  case Nil
  then show ?case by simp
next
  case (Cons x xs)
  show ?case
  proof (cases "body x s")
    case (Inl e)
    then show ?thesis using Cons.prems(1)[of x s] Cons.prems(3) by simp
  next
    case (Inr s')
    have I': "I s'" using Cons.prems(2)[of x s s'] Cons.prems(3) Inr by simp
    have "for_each body' xs (g s') = map_sum f g (for_each body xs s')"
    proof (rule Cons.IH)
      show "\<And>x s. x \<in> set xs \<Longrightarrow> I s \<Longrightarrow> body' x (g s) = map_sum f g (body x s)"
        using Cons.prems(1) by simp
      show "\<And>x s s'. x \<in> set xs \<Longrightarrow> I s \<Longrightarrow> body x s = Inr s' \<Longrightarrow> I s'"
        using Cons.prems(2) by (meson list.set_intros(2))
      show "I s'" by (rule I')
    qed
    then show ?thesis using Cons.prems(1)[of x s] Cons.prems(3) Inr by simp
  qed
qed

lemma for_each_inv:
  assumes "for_each body xs s = Inr s'" and "I s"
      and "\<And>x s s'. x \<in> set xs \<Longrightarrow> I s \<Longrightarrow> body x s = Inr s' \<Longrightarrow> I s'"
  shows "I s'"
  using assms
proof (induction xs arbitrary: s)
  case Nil
  then show ?case by simp
next
  case (Cons x xs)
  from Cons.prems(1) obtain s1 where 1: "body x s = Inr s1" and 2: "for_each body xs s1 = Inr s'"
    by (auto split: sum.splits)
  have I1: "I s1" using Cons.prems(3)[of x s s1] Cons.prems(2) 1 by simp
  show ?case
  proof (rule Cons.IH[OF 2 I1])
    show "\<And>x s s'. x \<in> set xs \<Longrightarrow> I s \<Longrightarrow> body x s = Inr s' \<Longrightarrow> I s'"
      using Cons.prems(3) by (meson list.set_intros(2))
  qed
qed

lemma init_blocked_shift:
  assumes "t < length c" and "\<forall>r \<in> set c. r < length loc"
  shows "init_blocked (map (\<lambda>r. length pre + r) c) t (pre @ loc)
           = map_sum (map_prod id ((@) pre)) ((@) pre) (init_blocked c t loc)"
  using assms by (simp add: init_blocked_def Let_def update_shift)

lemma init_blocked_length:
  "init_blocked c t loc = Inr loc' \<Longrightarrow> length loc' = length loc"
  by (auto simp: init_blocked_def Let_def)

lemma init_loop_shift:
  assumes "\<forall>r \<in> set c. r < length loc"
  shows "for_each (init_blocked (map (\<lambda>r. length pre + r) c)) [0..<length c] (pre @ loc)
           = map_sum (map_prod id ((@) pre)) ((@) pre)
               (for_each (init_blocked c) [0..<length c] loc)"
  using assms
  by (intro for_each_shift[where I = "\<lambda>s. length s = length loc"])
     (auto simp: init_blocked_shift init_blocked_length)

lemma init_loop_length:
  "for_each (init_blocked c) ts loc = Inr loc' \<Longrightarrow> length loc' = length loc"
  by (rule for_each_inv[where I = "\<lambda>s. length s = length loc"])
     (auto simp: init_blocked_length)

lemma block_step_shift:
  assumes "\<forall>r \<in> set c. r < length loc"
  shows "block_step (map (\<lambda>r. length pre + r) c) acb k tc (pre @ loc, nc)
           = map_sum (map_prod id ((@) pre)) (map_prod ((@) pre) id)
               (block_step c acb k tc (loc, nc))"
proof (cases tc)
  case (Pair t cand)
  show ?thesis
  proof (cases "t_map t acb")
    case (Inl e)
    then show ?thesis using Pair by (simp add: block_step_def)
  next
    case (Inr u)
    show ?thesis
    proof (cases "u < length c")
      case False
      then show ?thesis using Pair Inr by (simp add: block_step_def py_get_def)
    next
      case True
      then have r: "c ! u < length loc" using assms by simp
      show ?thesis
        using Pair Inr True r
        by (simp add: block_step_def py_get_def Let_def update_shift
                 split: sum.splits option.splits)
    qed
  qed
qed

lemma block_step_length:
  "block_step c acb k tc (loc, nc) = Inr (loc', nc') \<Longrightarrow> length loc' = length loc"
  by (auto simp: block_step_def Let_def split: prod.splits sum.splits option.splits if_splits)

lemma block_loop_shift:
  assumes "\<forall>r \<in> set c. r < length loc"
  shows "for_each (block_step (map (\<lambda>r. length pre + r) c) acb k) zs (pre @ loc, nc)
           = map_sum (map_prod id ((@) pre)) (map_prod ((@) pre) id)
               (for_each (block_step c acb k) zs (loc, nc))"
proof -
  have "for_each (block_step (map (\<lambda>r. length pre + r) c) acb k) zs
          (map_prod ((@) pre) id (loc, nc))
           = map_sum (map_prod id ((@) pre)) (map_prod ((@) pre) id)
               (for_each (block_step c acb k) zs (loc, nc))"
  proof (rule for_each_shift[where I = "\<lambda>s. length (fst s) = length loc"])
    fix x and s :: "heap \<times> nat list" assume "length (fst s) = length loc"
    then show "block_step (map (\<lambda>r. length pre + r) c) acb k x (map_prod ((@) pre) id s)
           = map_sum (map_prod id ((@) pre)) (map_prod ((@) pre) id) (block_step c acb k x s)"
      using block_step_shift[of c "fst s" pre acb k x "snd s"] assms by (cases s) simp
  next
    fix x and s s' :: "heap \<times> nat list"
    assume "length (fst s) = length loc" "block_step c acb k x s = Inr s'"
    then show "length (fst s') = length loc"
      using block_step_length[of c acb k x "fst s" "snd s" "fst s'" "snd s'"] by simp
  qed simp
  then show ?thesis by simp
qed

lemma block_loop_length:
  assumes "for_each (block_step c acb k) zs (loc, nc) = Inr (loc', nc')"
  shows "length loc' = length loc"
proof -
  have "length (fst (loc', nc')) = length loc"
  proof (rule for_each_inv[where I = "\<lambda>s. length (fst s) = length loc", OF assms])
    fix x and s s' :: "heap \<times> nat list"
    assume "length (fst s) = length loc" "block_step c acb k x s = Inr s'"
    then show "length (fst s') = length loc"
      using block_step_length[of c acb k x "fst s" "snd s" "fst s'" "snd s'"] by simp
  qed simp
  then show ?thesis by simp
qed

lemma exhausted_loop_shift:
  assumes "\<forall>r \<in> set c. r < length loc"
  shows "for_each (exhausted_step (map (\<lambda>r. length pre + r) c) (pre @ loc)) [0..<length c] acb
           = map_sum (map_prod id ((@) pre)) id
               (for_each (exhausted_step c loc) [0..<length c] acb)"
proof -
  have "for_each (exhausted_step (map (\<lambda>r. length pre + r) c) (pre @ loc)) [0..<length c]
          (id acb)
           = map_sum (map_prod id ((@) pre)) id
               (for_each (exhausted_step c loc) [0..<length c] acb)"
    using assms
    by (intro for_each_shift[where I = "\<lambda>s. True"])
       (auto simp: exhausted_step_def split: option.splits)
  then show ?thesis by simp
qed


lemma sub_layers_shift:
  assumes "\<forall>r \<in> set c. r < length loc"
  shows "map (\<lambda>t. (pre @ loc) ! (map (\<lambda>r. length pre + r) c ! t))
           (filter (\<lambda>t. \<not> acb ! t) [0..<length c])
         = map (\<lambda>t. loc ! (c ! t)) (filter (\<lambda>t. \<not> acb ! t) [0..<length c])"
  by (rule map_cong) auto

lemma rerank_iteration_shift:
  assumes v: "\<forall>r \<in> set c. r < length loc"
  shows "rerank_iteration (map (\<lambda>r. length pre + r) c) cut_off weight_fun kw k (pre @ loc, st)
           = map_sum (map_prod id ((@) pre)) (map_prod ((@) pre) id)
               (rerank_iteration c cut_off weight_fun kw k (loc, st))"
proof -
  let ?c' = "map (\<lambda>r. length pre + r) c"
  let ?acb = "all_cand_blocked st"
  let ?sub = "map (\<lambda>t. loc ! (c ! t)) (filter (\<lambda>t. \<not> ?acb ! t) [0..<length c])"
  let ?F = "map_sum (map_prod id ((@) pre)) (map_prod ((@) pre) id)"
  show ?thesis
  proof (cases "shortest_path_exclude_candidates ?sub weight_fun cut_off True True kw")
    case (Inl e)
    then show ?thesis
      by (simp add: rerank_iteration_def Let_def sub_layers_shift[OF v])
  next
    case (Inr pl)
    obtain path len where pl: "pl = (path, len)" by (cases pl)
    show ?thesis
    proof (cases "length path \<noteq> length (filter (\<lambda>b. \<not> b) ?acb)")
      case True
      then show ?thesis
        using Inr pl by (simp add: rerank_iteration_def Let_def sub_layers_shift[OF v])
    next
      case False
      let ?zs = "zip [0..<length path] path"
      note bl = block_loop_shift[OF v, of pre ?acb k ?zs "num_correct st @ [0]"]
      show ?thesis
      proof (cases "for_each (block_step c ?acb k) ?zs (loc, num_correct st @ [0])")
        case (Inl eh)
        then show ?thesis
          using Inr pl False bl
          by (simp add: rerank_iteration_def Let_def sub_layers_shift[OF v])
      next
        case Inr2: (Inr hn)
        obtain loc' nc' where hn: "hn = (loc', nc')" by (cases hn)
        have l': "length loc' = length loc"
          using block_loop_length Inr2 hn by blast
        then have v': "\<forall>r \<in> set c. r < length loc'" using v by simp
        note ex = exhausted_loop_shift[OF v', of pre ?acb]
        show ?thesis
          using Inr pl False bl Inr2 hn ex
          by (cases "for_each (exhausted_step c loc') [0..<length c] ?acb")
             (simp_all add: rerank_iteration_def Let_def sub_layers_shift[OF v])
      qed
    qed
  qed
qed

lemma rerank_iteration_length:
  assumes "rerank_iteration c cut_off weight_fun kw k (loc, st) = Inr (loc', st')"
  shows "length loc' = length loc"
  using assms block_loop_length
  by (auto simp: rerank_iteration_def Let_def split: sum.splits prod.splits if_splits)

lemma rerank_loop_shift:
  assumes "\<forall>r \<in> set c. r < length loc"
  shows "rerank_loop (map (\<lambda>r. length pre + r) c) cut_off weight_fun kw ks (pre @ loc, st)
           = map_sum (map_prod id ((@) pre)) (map_prod ((@) pre) id)
               (rerank_loop c cut_off weight_fun kw ks (loc, st))"
  using assms
proof (induction ks arbitrary: loc st)
  case Nil
  then show ?case by simp
next
  case (Cons k ks)
  note it = rerank_iteration_shift[OF Cons.prems, of pre cut_off weight_fun kw k st]
  show ?case
  proof (cases "list_all (\<lambda>x. x) (all_cand_blocked st)")
    case True
    then show ?thesis by simp
  next
    case False
    show ?thesis
    proof (cases "rerank_iteration c cut_off weight_fun kw k (loc, st)")
      case (Inl eh)
      then show ?thesis using False it by (simp add: id_def)
    next
      case (Inr s')
      obtain loc' st' where s': "s' = (loc', st')" by (cases s')
      have "length loc' = length loc" using rerank_iteration_length Inr s' by blast
      then have "\<forall>r \<in> set c. r < length loc'" using Cons.prems by simp
      from Cons.IH[OF this] show ?thesis using False it Inr s' by (simp add: id_def)
    qed
  qed
qed

lemma reranking_local:
  assumes "\<forall>a \<in> set cand_data. a < length h"
  shows "perform_reranking_of_candidates (h @ g) cand_data topk cut_off weight_function kw
           = map_sum (map_prod id ((@) (h @ g))) (map_prod id ((@) (h @ g)))
               (local_call (map (\<lambda>a. h ! a) (remdups cand_data))
                  (map (index_of (remdups cand_data)) cand_data) topk cut_off weight_function kw)"
proof -
  let ?objs = "remdups cand_data"
  let ?loc = "map (\<lambda>a. h ! a) ?objs"
  let ?c = "map (index_of ?objs) cand_data"
  let ?pre = "h @ g"
  have loc: "map (\<lambda>a. (h @ g) ! a) ?objs = ?loc"
    using assms by (intro map_cong) (auto simp: nth_append)
  have dc: "deepcopy ?pre cand_data = (?pre @ ?loc, map (\<lambda>r. length ?pre + r) ?c)"
    using loc by (simp add: deepcopy_def Let_def)
  have v: "\<forall>r \<in> set ?c. r < length ?loc"
    by (auto intro: index_of_less)
  show ?thesis
  proof (cases weight_function)
    case None
    then show ?thesis
      unfolding perform_reranking_of_candidates_def dc by (simp add: local_call_def)
  next
    case (Some w_fun)
    note ini = init_loop_shift[OF v, of ?pre]
    show ?thesis
    proof (cases "for_each (init_blocked ?c) [0..<length ?c] ?loc")
      case (Inl eh)
      then show ?thesis
        unfolding perform_reranking_of_candidates_def dc using Some ini
        by (simp add: local_call_def)
    next
      case (Inr h2)
      have "length h2 = length ?loc" using init_loop_length[OF Inr] .
      then have v2: "\<forall>r \<in> set ?c. r < length h2" using v by simp
      note lp = rerank_loop_shift[OF v2, of ?pre cut_off w_fun kw "[0..<topk]"
                  "\<lparr>num_correct = [], paths = [], lengths = [],
                    all_cand_blocked = replicate (length ?c) False\<rparr>"]
      show ?thesis
        unfolding perform_reranking_of_candidates_def dc using Some ini Inr lp
        by (cases "rerank_loop ?c cut_off w_fun kw [0..<topk]
                     (h2, \<lparr>num_correct = [], paths = [], lengths = [],
                           all_cand_blocked = replicate (length ?c) False\<rparr>)")
           (auto simp: local_call_def)
    qed
  qed
qed

lemma final_heap_map:
  "final_heap (map_sum (map_prod id ((@) pre)) (map_prod id ((@) pre)) r) = pre @ final_heap r"
  by (auto simp: final_heap_def split: sum.splits)

lemma outcome_map:
  "outcome (map_sum (map_prod id f) (map_prod id f) r) = outcome r"
  by (auto simp: outcome_def split: sum.splits)

text \<open>
  C9: the reranking works on a deep copy. Every dictionary that is in the store when the
  call starts, so every layer of the caller with its blocked flags and all other fields,
  is the same when the call ends, with a result or with an exception; and a later call on
  the same \<open>cand_data\<close>, with any parameters, gives what it would have given without
  the earlier call.
\<close>

theorem reranking_leaves_caller_layers:
  assumes "\<forall>a \<in> set cand_data. a < length h"
  shows "take (length h)
           (final_heap (perform_reranking_of_candidates h cand_data topk cut_off weight_function kw))
         = h
       \<and> outcome (perform_reranking_of_candidates
                    (final_heap (perform_reranking_of_candidates h cand_data topk cut_off
                                   weight_function kw))
                    cand_data topk' cut_off' weight_function' kw')
         = outcome (perform_reranking_of_candidates h cand_data topk' cut_off' weight_function' kw')"
proof -
  let ?loc = "map (\<lambda>a. h ! a) (remdups cand_data)"
  let ?c = "map (index_of (remdups cand_data)) cand_data"
  have f: "final_heap (perform_reranking_of_candidates h cand_data topk cut_off weight_function kw)
             = h @ final_heap (local_call ?loc ?c topk cut_off weight_function kw)"
    using reranking_local[OF assms, of "[]" topk cut_off weight_function kw]
    by (simp add: final_heap_map)
  have "outcome (perform_reranking_of_candidates
                   (h @ final_heap (local_call ?loc ?c topk cut_off weight_function kw))
                   cand_data topk' cut_off' weight_function' kw')
        = outcome (local_call ?loc ?c topk' cut_off' weight_function' kw')"
    by (simp add: reranking_local[OF assms] outcome_map)
  moreover have "outcome (perform_reranking_of_candidates h cand_data topk' cut_off'
                            weight_function' kw')
        = outcome (local_call ?loc ?c topk' cut_off' weight_function' kw')"
    using reranking_local[OF assms, of "[]" topk' cut_off' weight_function' kw']
    by (simp add: outcome_map)
  ultimately show ?thesis using f by simp
qed

theorem reranking_leaves_caller_layers_witness:
  "take 2 (final_heap (perform_reranking_of_candidates [scenario_layer0, scenario_layer1] [0, 1]
                         3 None (Some weight_func_max) scenario_kwargs))
     = [scenario_layer0, scenario_layer1]
   \<and> outcome (perform_reranking_of_candidates
                (final_heap (perform_reranking_of_candidates [scenario_layer0, scenario_layer1]
                               [0, 1] 3 None (Some weight_func_max) scenario_kwargs))
                [0, 1] 1 None (Some weight_func_max) infinite_kwargs)
     = outcome (perform_reranking_of_candidates [scenario_layer0, scenario_layer1] [0, 1] 1 None
                  (Some weight_func_max) infinite_kwargs)
   \<and> is_blocked (final_heap (perform_reranking_of_candidates [scenario_layer0, scenario_layer1]
                               [0, 1] 3 None (Some weight_func_max) scenario_kwargs) ! 2)
     = Some [True, True]"
proof -
  have b: "is_blocked (final_heap (perform_reranking_of_candidates
                                     [scenario_layer0, scenario_layer1] [0, 1] 3 None
                                     (Some weight_func_max) scenario_kwargs) ! 2)
             = Some [True, True]"
    by (simp add: rerank_defs solver_defs scenario_layer0_def scenario_layer1_def
          scenario_kwargs_def)
  show ?thesis
    using b reranking_leaves_caller_layers
              [of "[0, 1]" "[scenario_layer0, scenario_layer1]" 3 None "Some weight_func_max"
                  scenario_kwargs 1 None "Some weight_func_max" infinite_kwargs]
    by (simp add: numeral_2_eq_2)
qed

section \<open>The correct counts of the reranking\<close>

lemma index_of_nth: "distinct xs \<Longrightarrow> i < length xs \<Longrightarrow> index_of xs (xs ! i) = i"
proof (induction xs arbitrary: i)
  case Nil
  then show ?case by simp
next
  case (Cons x xs)
  then show ?case by (cases i) auto
qed

lemma index_of_distinct: "distinct xs \<Longrightarrow> map (index_of xs) xs = [0..<length xs]"
  by (intro nth_equalityI) (auto simp: index_of_nth)

lemma init_loop_blocked:
  assumes "k \<le> length layers"
  shows "\<exists>loc. for_each (init_blocked [0..<length layers]) [0..<k] layers = Inr loc
           \<and> length loc = length layers
           \<and> (\<forall>u < length layers. loc ! u =
                 (if u < k
                  then (layers ! u)\<lparr>is_blocked :=
                          Some (replicate (length (iokrscores (layers ! u))) False)\<rparr>
                  else layers ! u))"
  using assms
proof (induction k)
  case 0
  then show ?case by simp
next
  case (Suc k)
  then obtain loc where loc: "for_each (init_blocked [0..<length layers]) [0..<k] layers = Inr loc"
    "length loc = length layers"
    "\<And>u. u < length layers \<Longrightarrow> loc ! u =
                 (if u < k
                  then (layers ! u)\<lparr>is_blocked :=
                          Some (replicate (length (iokrscores (layers ! u))) False)\<rparr>
                  else layers ! u)"
    by auto
  have k: "k < length layers" using Suc.prems by simp
  let ?loc' = "loc[k := (layers ! k)\<lparr>is_blocked :=
                          Some (replicate (length (iokrscores (layers ! k))) False)\<rparr>]"
  have "init_blocked [0..<length layers] k loc = Inr ?loc'"
    using k loc(3)[of k] by (simp add: init_blocked_def Let_def)
  then have "for_each (init_blocked [0..<length layers]) [0..<Suc k] layers = Inr ?loc'"
    using loc(1) by (simp add: for_each_append)
  moreover have "\<forall>u < length layers. ?loc' ! u =
                 (if u < Suc k
                  then (layers ! u)\<lparr>is_blocked :=
                          Some (replicate (length (iokrscores (layers ! u))) False)\<rparr>
                  else layers ! u)"
    using loc(2,3) k by (auto simp: nth_list_update less_Suc_eq)
  ultimately show ?case using loc(2) by auto
qed

lemma init_loop_holds:
  "\<exists>loc. for_each (init_blocked [0..<length layers]) [0..<length layers] layers = Inr loc
         \<and> holds_blocked layers (map (\<lambda>l. replicate (length (iokrscores l)) False) layers) loc"
  using init_loop_blocked[of "length layers" layers]
  by (auto simp: holds_blocked_def)

lemma block_step_replay:
  assumes s: "block_step [0..<length layers] acb k pc (loc, nc) = Inr (loc1, nc1)"
      and h: "holds_blocked layers bl loc"
  shows "nc1 = nc[k := nc ! k + (if spec_is_correct layers acb pc then 1 else 0)]
         \<and> holds_blocked layers (spec_block_node acb pc bl) loc1 \<and> k < length nc"
proof -
  obtain p c where pc: "pc = (p, c)" by (cases pc)
  let ?u = "spec_mapping acb ! p"
  from s pc have tm: "t_map p acb = Inr ?u"
    by (auto simp: block_step_def t_map_def py_get_def spec_mapping_def
             split: sum.splits if_splits)
  from s pc tm have u: "?u < length layers"
    by (auto simp: block_step_def py_get_def split: sum.splits if_splits)
  then have a: "py_get [0..<length layers] ?u = Inr ?u" by (simp add: py_get_def)
  have lu: "loc ! ?u = (layers ! ?u)\<lparr>is_blocked := Some (bl ! ?u)\<rparr>"
    using h u by (simp add: holds_blocked_def)
  from s pc tm a lu have
    c: "c < length (is_true_identification (layers ! ?u))" and k: "k < length nc"
    and cb: "c < length (bl ! ?u)"
    and nc1: "nc1 = nc[k := nc ! k + (if is_true_identification (layers ! ?u) ! c then 1 else 0)]"
    and loc1: "loc1 = loc[?u := (loc ! ?u)\<lparr>is_blocked := Some ((bl ! ?u)[c := True])\<rparr>]"
    by (auto simp: block_step_def py_get_def Let_def split: sum.splits if_splits)
  have "holds_blocked layers (bl[?u := (bl ! ?u)[c := True]]) loc1"
    using h u lu unfolding holds_blocked_def loc1
    by (auto simp: nth_list_update)
  then show ?thesis using nc1 k pc by (simp add: spec_block_node_def spec_is_correct_def)
qed

lemma block_loop_replay:
  assumes "for_each (block_step [0..<length layers] acb k) zs (loc, nc) = Inr (loc', nc')"
      and "holds_blocked layers bl loc" and "k < length nc"
  shows "nc' = nc[k := nc ! k + length (filter (spec_is_correct layers acb) zs)]
         \<and> holds_blocked layers (fold (spec_block_node acb) zs bl) loc'"
  using assms
proof (induction zs arbitrary: loc nc bl)
  case Nil
  then show ?case by simp
next
  case (Cons pc zs)
  from Cons.prems(1) obtain loc1 nc1 where
    1: "block_step [0..<length layers] acb k pc (loc, nc) = Inr (loc1, nc1)"
    and 2: "for_each (block_step [0..<length layers] acb k) zs (loc1, nc1) = Inr (loc', nc')"
    by (auto split: sum.splits)
  from block_step_replay[OF 1 Cons.prems(2)] have
    nc1: "nc1 = nc[k := nc ! k + (if spec_is_correct layers acb pc then 1 else 0)]"
    and h1: "holds_blocked layers (spec_block_node acb pc bl) loc1"
    by auto
  have k1: "k < length nc1" using nc1 Cons.prems(3) by simp
  from Cons.IH[OF 2 h1 k1] have
    "nc' = nc1[k := nc1 ! k + length (filter (spec_is_correct layers acb) zs)]"
    and h': "holds_blocked layers (fold (spec_block_node acb) zs (spec_block_node acb pc bl)) loc'"
    by auto
  then have "nc' = nc[k := nc ! k + length (filter (spec_is_correct layers acb) (pc # zs))]"
    using nc1 Cons.prems(3) by simp
  then show ?case using h' by simp
qed

lemma exhausted_loop_prefix:
  assumes h: "holds_blocked layers bl loc" and l: "length acb = length layers"
      and k: "k \<le> length layers"
  shows "for_each (exhausted_step [0..<length layers] loc) [0..<k] acb
           = Inr (map (\<lambda>u. if u < k then list_all (\<lambda>x. x) (bl ! u) else acb ! u)
                    [0..<length layers])"
  using k
proof (induction k)
  case 0
  have "map (\<lambda>u. acb ! u) [0..<length layers] = acb"
    using l by (intro nth_equalityI) auto
  then show ?case by simp
next
  case (Suc k)
  let ?m = "\<lambda>k. map (\<lambda>u. if u < k then list_all (\<lambda>x. x) (bl ! u) else acb ! u)
                    [0..<length layers]"
  have k: "k < length layers" using Suc.prems by simp
  have 1: "for_each (exhausted_step [0..<length layers] loc) [0..<k] acb = Inr (?m k)"
    using Suc by simp
  have "is_blocked (loc ! k) = Some (bl ! k)" using h k by (simp add: holds_blocked_def)
  then have 2: "exhausted_step [0..<length layers] loc k (?m k)
                  = Inr ((?m k)[k := list_all (\<lambda>x. x) (bl ! k)])"
    using k by (simp add: exhausted_step_def)
  have "(?m k)[k := list_all (\<lambda>x. x) (bl ! k)] = ?m (Suc k)"
    using k by (intro nth_equalityI) (auto simp: nth_list_update less_Suc_eq)
  then show ?case using 1 2 by (simp add: for_each_append)
qed

lemma exhausted_loop_replay:
  assumes h: "holds_blocked layers bl loc" and l: "length acb = length layers"
  shows "for_each (exhausted_step [0..<length layers] loc) [0..<length layers] acb
           = Inr (map (list_all (\<lambda>x. x)) bl)"
proof -
  have "length bl = length layers" using h by (simp add: holds_blocked_def)
  then have "map (\<lambda>u. if u < length layers then list_all (\<lambda>x. x) (bl ! u) else acb ! u)
                    [0..<length layers] = map (list_all (\<lambda>x. x)) bl"
    by (intro nth_equalityI) auto
  then show ?thesis using exhausted_loop_prefix[OF h l, of "length layers"] by simp
qed

lemma rerank_iteration_replay:
  assumes it: "rerank_iteration [0..<length layers] cut_off weight_fun kw k (loc, st)
                 = Inr (loc', st')"
      and h: "holds_blocked layers bl loc"
      and l: "length (all_cand_blocked st) = length layers"
      and n: "length (num_correct st) = k"
  shows "\<exists>path. paths st' = paths st @ [path]
           \<and> num_correct st' = num_correct st @ [spec_correct_count layers (all_cand_blocked st) path]
           \<and> holds_blocked layers (spec_block bl (all_cand_blocked st) path) loc'
           \<and> all_cand_blocked st' = map (list_all (\<lambda>x. x)) (spec_block bl (all_cand_blocked st) path)"
proof -
  let ?acb = "all_cand_blocked st"
  from it obtain path len loc1 nc1 acb1 where
    ln: "length path = length (filter Not ?acb)"
    and bl0: "for_each (block_step [0..<length layers] ?acb k)
           (zip [0..<length (filter Not ?acb)] path)
           (loc, num_correct st @ [0]) = Inr (loc1, nc1)"
    and ex: "for_each (exhausted_step [0..<length layers] loc1) [0..<length layers] ?acb = Inr acb1"
    and st': "st' = \<lparr>num_correct = nc1, paths = paths st @ [path],
                     lengths = lengths st @ [len], all_cand_blocked = acb1\<rparr>"
    and loc': "loc' = loc1"
    by (auto simp: rerank_iteration_def Let_def split: sum.splits prod.splits if_splits)
  have bl: "for_each (block_step [0..<length layers] ?acb k) (zip [0..<length path] path)
           (loc, num_correct st @ [0]) = Inr (loc1, nc1)"
    using bl0 ln by simp
  have k: "k < length (num_correct st @ [0])" using n by simp
  from block_loop_replay[OF bl h k] have
    nc1: "nc1 = (num_correct st @ [0])[k := (num_correct st @ [0]) ! k
                   + length (filter (spec_is_correct layers ?acb) (zip [0..<length path] path))]"
    and h1: "holds_blocked layers (fold (spec_block_node ?acb) (zip [0..<length path] path) bl) loc1"
    by auto
  have "nc1 = num_correct st @ [spec_correct_count layers ?acb path]"
    using nc1 n by (simp add: spec_correct_count_def nth_append list_update_append)
  moreover have "acb1 = map (list_all (\<lambda>x. x)) (spec_block bl ?acb path)"
    using exhausted_loop_replay[OF h1 l] ex by (simp add: spec_block_def)
  ultimately show ?thesis using st' loc' h1 by (simp add: spec_block_def)
qed

lemma rerank_loop_replay:
  assumes "rerank_loop [0..<length layers] cut_off weight_fun kw ks (loc, st) = Inr (loc', st')"
      and "ks = [length (num_correct st)..<K]"
      and "holds_blocked layers bl loc"
      and "length (all_cand_blocked st) = length layers"
  shows "\<exists>new. paths st' = paths st @ new
           \<and> num_correct st' = num_correct st @ spec_replay layers bl (all_cand_blocked st) new"
  using assms
proof (induction ks arbitrary: loc st bl)
  case Nil
  then show ?case by (intro exI[of _ "[]"]) simp
next
  case (Cons k ks)
  have kk: "k = length (num_correct st)" and ks: "ks = [Suc (length (num_correct st))..<K]"
    using Cons.prems(2)[symmetric] by (auto simp: upt_eq_Cons_conv)
  show ?case
  proof (cases "list_all (\<lambda>x. x) (all_cand_blocked st)")
    case True
    then have "st' = st" using Cons.prems(1) by simp
    then show ?thesis by (intro exI[of _ "[]"]) simp
  next
    case False
    from Cons.prems(1) False obtain loc1 st1 where
      1: "rerank_iteration [0..<length layers] cut_off weight_fun kw k (loc, st) = Inr (loc1, st1)"
      and 2: "rerank_loop [0..<length layers] cut_off weight_fun kw ks (loc1, st1) = Inr (loc', st')"
      by (auto split: sum.splits)
    from rerank_iteration_replay[OF 1 Cons.prems(3,4) kk[symmetric]] obtain path where
      p: "paths st1 = paths st @ [path]"
      and n: "num_correct st1
                = num_correct st @ [spec_correct_count layers (all_cand_blocked st) path]"
      and h1: "holds_blocked layers (spec_block bl (all_cand_blocked st) path) loc1"
      and a1: "all_cand_blocked st1
                = map (list_all (\<lambda>x. x)) (spec_block bl (all_cand_blocked st) path)"
      by blast
    have l1: "length (all_cand_blocked st1) = length layers"
      using a1 h1 by (simp add: holds_blocked_def)
    have ks1: "ks = [length (num_correct st1)..<K]" using ks n by simp
    from Cons.IH[OF 2 ks1 h1 l1] obtain new where
      "paths st' = paths st1 @ new"
      "num_correct st' = num_correct st1 @ spec_replay layers
          (spec_block bl (all_cand_blocked st) path) (all_cand_blocked st1) new"
      by blast
    then show ?thesis using p n a1 by (intro exI[of _ "path # new"]) simp
  qed
qed

lemma spec_replay_length [simp]: "length (spec_replay layers bl exhausted ps) = length ps"
  by (induction ps arbitrary: bl exhausted) auto

lemma local_call_counts:
  assumes "outcome (local_call layers [0..<length layers] topk cut_off weight_function kw)
             = Inr (accs, ps, ls)"
  shows "accs = topk_accs (spec_correct_counts layers ps) (length layers)"
proof -
  from assms obtain w_fun where w: "weight_function = Some w_fun"
    by (cases weight_function) (auto simp: local_call_def outcome_def)
  obtain loc0 where i: "for_each (init_blocked [0..<length layers]) [0..<length layers] layers
                          = Inr loc0"
    and h0: "holds_blocked layers (map (\<lambda>l. replicate (length (iokrscores l)) False) layers) loc0"
    using init_loop_holds by blast
  let ?st0 = "\<lparr>num_correct = [], paths = [], lengths = [],
               all_cand_blocked = replicate (length layers) False\<rparr>"
  from assms w i obtain loc' st' where
    lp: "rerank_loop [0..<length layers] cut_off w_fun kw [0..<topk] (loc0, ?st0) = Inr (loc', st')"
    and r: "accs = topk_accs (num_correct st') (length layers)" "ps = paths st'"
    by (auto simp: local_call_def outcome_def split: sum.splits prod.splits)
  from rerank_loop_replay[OF lp _ h0, of topk] obtain new where
    "paths st' = new"
    "num_correct st' = spec_replay layers
        (map (\<lambda>l. replicate (length (iokrscores l)) False) layers)
        (replicate (length layers) False) new"
    by auto
  then show ?thesis using r by (simp add: spec_correct_counts_def)
qed

lemma reranking_counts:
  assumes res: "outcome (perform_reranking_of_candidates h cand_data topk cut_off
                           weight_function kw) = Inr (accs, ps, ls)"
      and d: "distinct cand_data" and v: "\<forall>a \<in> set cand_data. a < length h"
  shows "accs = topk_accs (spec_correct_counts (map (\<lambda>a. h ! a) cand_data) ps) (length cand_data)"
proof -
  let ?layers = "map (\<lambda>a. h ! a) cand_data"
  have "outcome (perform_reranking_of_candidates h cand_data topk cut_off weight_function kw)
          = outcome (local_call ?layers [0..<length ?layers] topk cut_off weight_function kw)"
    using reranking_local[OF v, of "[]" topk cut_off weight_function kw] d
    by (simp add: outcome_map index_of_distinct distinct_remdups_id)
  then show ?thesis using local_call_counts[of ?layers topk cut_off weight_function kw accs ps ls] res
    by simp
qed


text \<open>
  C6: in the accuracies that the reranking returns, the entry of iteration \<open>m \<ge> 1\<close> is
  at least the entry before it. When no two layers are the same object, there is one
  entry per path, and entry \<open>m\<close> is the sum of the correct counts of the iterations up to
  \<open>m\<close>, divided by the number of layers and multiplied by 100; the correct count of an
  iteration is the number of nodes of its path whose candidate is the true one of its
  layer, the positions of the path being mapped to the layers that are not exhausted.
\<close>

theorem cumulative_accuracy_monotone:
  assumes "outcome (perform_reranking_of_candidates h cand_data topk cut_off weight_function kw)
             = Inr (accs, ps, ls)"
  shows "(\<forall>m. 1 \<le> m \<and> m < length accs \<longrightarrow> accs ! (m - 1) \<le> accs ! m)
       \<and> (distinct cand_data \<and> (\<forall>a \<in> set cand_data. a < length h) \<longrightarrow>
            length accs = length ps
            \<and> (\<forall>i < length accs.
                  accs ! i
                  = real (sum_list (take (Suc i)
                             (spec_correct_counts (map (\<lambda>a. h ! a) cand_data) ps)))
                    / real (length cand_data) * 100))"
proof (intro conjI allI impI)
  fix m assume m: "1 \<le> m \<and> m < length accs"
  obtain nc where nc: "accs = topk_accs nc (length cand_data)"
    using reranking_accs_form[OF assms] by blast
  show "accs ! (m - 1) \<le> accs ! m"
    using topk_accs_mono[of m nc] m nc by simp
next
  assume dv: "distinct cand_data \<and> (\<forall>a \<in> set cand_data. a < length h)"
  have a: "accs = topk_accs (spec_correct_counts (map (\<lambda>a. h ! a) cand_data) ps)
                    (length cand_data)"
    using reranking_counts[OF assms] dv by blast
  show "length accs = length ps"
    using a by (simp add: spec_correct_counts_def)
  fix i assume "i < length accs"
  then have "i < length (spec_correct_counts (map (\<lambda>a. h ! a) cand_data) ps)"
    using a by simp
  then show "accs ! i
                  = real (sum_list (take (Suc i)
                             (spec_correct_counts (map (\<lambda>a. h ! a) cand_data) ps)))
                    / real (length cand_data) * 100"
    using a topk_accs_nth by blast
qed

theorem cumulative_accuracy_monotone_witness:
  "outcome (perform_reranking_of_candidates [narrow_layer, second_true_layer] [0, 1] 4 None
              (Some weight_func_max) scenario_kwargs)
     = Inr ([50, 50, 50, 50], [[0, 0], [0], [0], [0]],
            [Fin (- 1.7), Fin (- 0.8), Fin (- 0.8), Fin (- 0.8)])
   \<and> spec_correct_counts [narrow_layer, second_true_layer] [[0, 0], [0], [0], [0]] = [1, 0, 0, 0]
   \<and> [50, 50, 50, 50 :: real] ! (1 - 1) \<le> [50, 50, 50, 50] ! 1
   \<and> [50, 50, 50, 50 :: real] ! 3
       = real (sum_list (take (Suc 3) [1, 0, 0, 0 :: nat])) / real (length [0, 1 :: nat]) * 100"
proof -
  have e: "outcome (perform_reranking_of_candidates [narrow_layer, second_true_layer] [0, 1] 4
              None (Some weight_func_max) scenario_kwargs)
     = Inr ([50, 50, 50, 50], [[0, 0], [0], [0], [0]],
            [Fin (- 1.7), Fin (- 0.8), Fin (- 0.8), Fin (- 0.8)])"
    by (simp add: rerank_defs solver_defs narrow_layer_def second_true_layer_def
          scenario_kwargs_def)
  have c: "spec_correct_counts [narrow_layer, second_true_layer] [[0, 0], [0], [0], [0]]
             = [1, 0, 0, 0]"
    by (simp add: spec_correct_counts_def spec_correct_count_def spec_is_correct_def
          spec_mapping_def spec_block_def spec_block_node_def narrow_layer_def
          second_true_layer_def upt_rec)
  have d: "distinct [0, 1 :: nat]
           \<and> (\<forall>a \<in> set [0, 1 :: nat]. a < length [narrow_layer, second_true_layer])"
    by simp
  have l: "map (\<lambda>a. [narrow_layer, second_true_layer] ! a) [0, 1]
             = [narrow_layer, second_true_layer]"
    by simp
  note t = cumulative_accuracy_monotone [OF e]
  have mono: "\<forall>m. 1 \<le> m \<and> m < length [50, 50, 50, 50 :: real]
          \<longrightarrow> [50, 50, 50, 50 :: real] ! (m - 1) \<le> [50, 50, 50, 50] ! m"
    using t by (rule conjunct1)
  have "length [50, 50, 50, 50 :: real] = length [[0, 0], [0], [0], [0 :: nat]]
        \<and> (\<forall>i < length [50, 50, 50, 50 :: real].
              [50, 50, 50, 50 :: real] ! i
              = real (sum_list (take (Suc i)
                   (spec_correct_counts (map (\<lambda>a. [narrow_layer, second_true_layer] ! a) [0, 1])
                      [[0, 0], [0], [0], [0]])))
                / real (length [0, 1 :: nat]) * 100)"
    using t d by (rule conjunct2 [THEN mp])
  then have form: "\<forall>i < length [50, 50, 50, 50 :: real].
          [50, 50, 50, 50 :: real] ! i
          = real (sum_list (take (Suc i) [1, 0, 0, 0 :: nat])) / real (length [0, 1 :: nat]) * 100"
    unfolding l c by (rule conjunct2)
  have m1: "[50, 50, 50, 50 :: real] ! (1 - 1) \<le> [50, 50, 50, 50] ! 1"
    using mono by simp
  have i3: "[50, 50, 50, 50 :: real] ! 3
       = real (sum_list (take (Suc 3) [1, 0, 0, 0 :: nat])) / real (length [0, 1 :: nat]) * 100"
    using form by simp
  show ?thesis
    by (intro conjI) (rule e, rule c, rule m1, rule i3)
qed

end
